theory Spec2Isabelle
  imports Complex_Main
begin

section \<open>AssembleElemSolverAlgorithm: batched element assembly\<close>

text \<open>
  Shallow embedding of \<^verbatim>\<open>src/AssembleElemSolverAlgorithm.C\<close> (host build, that is
  with \<^verbatim>\<open>KOKKOS_ENABLE_CUDA\<close> undefined; under CUDA the body of the batch lambda
  after the two \<^verbatim>\<open>set_zero\<close> calls is compiled out).

  Conventions of the embedding:
  \<^item> a \<^verbatim>\<open>double\<close> is a \<open>real\<close>: the only arithmetic the algorithm itself does is
    one division per diagonal entry;
  \<^item> \<^verbatim>\<open>DoubleType\<close> (a SIMD pack) is the list of its lanes;
  \<^item> a rank-1 view is a list, a rank-2 view is the list of its rows;
  \<^item> sizes and indices (\<^verbatim>\<open>unsigned\<close>, \<^verbatim>\<open>int\<close>, \<^verbatim>\<open>size_t\<close>) are naturals, taken to be in
    the range of their machine type;
  \<^item> a data member \<^verbatim>\<open>x_\<close> of a class is the field \<open>x\<close> of its record;
  \<^item> \<^verbatim>\<open>apply_coeff\<close> is the external sink: the model records the arguments of each
    call instead of performing the scatter.
\<close>

subsection \<open>Data\<close>

type_synonym DoubleType = "real list"

record SolutionOptions =
  get_relaxation_factor :: "string \<Rightarrow> real"

record Realm =
  solutionOptions :: SolutionOptions

record LinearSystem =
  numDof :: nat

record EquationSystem =
  dofName :: string
  linsys :: LinearSystem

text \<open>
  A kernel is an object with two virtual methods. \<^verbatim>\<open>setup\<close> may change the kernel's own
  coefficients, so it returns the kernel that results; \<^verbatim>\<open>execute\<close> receives the batched
  LHS and RHS views and the gathered data by reference and returns the two views as it
  leaves them.
\<close>

codatatype ('ti, 'pre) Kernel =
  Kernel
    (kernel_setup: "'ti \<Rightarrow> ('ti, 'pre) Kernel")
    (kernel_execute: "DoubleType list list \<Rightarrow> DoubleType list \<Rightarrow> 'pre \<Rightarrow>
                        DoubleType list list \<times> DoubleType list")

record ('ti, 'pre) AssembleElemSolverAlgorithm =
  entityRank :: nat
  nodesPerEntity :: nat
  rhsSize :: nat
  interleaveMEViews :: bool
  diagRelaxFactor :: real
  activeKernels :: "('ti, 'pre) Kernel list"

record ('pre, 'ent) SharedMemData =
  simdrhs :: "DoubleType list"
  simdlhs :: "DoubleType list list"
  simdPrereqData :: 'pre
  numSimdElems :: nat
  ngpElemNodes :: "'ent list"
  rhs :: "real list"
  lhs :: "real list list"

text \<open>The arguments of one call of \<^verbatim>\<open>apply_coeff\<close>.\<close>

record 'ent apply_coeff_call =
  ac_numEntities :: nat
  ac_entities :: 'ent
  ac_rhs :: "real list"
  ac_lhs :: "real list list"

subsection \<open>Constructor\<close>

definition diagRelaxFactor_default :: real where
  \<comment> \<open>Modelled from the spec: the in-class initialiser of \<^verbatim>\<open>diagRelaxFactor_\<close> is in
      \<^verbatim>\<open>AssembleElemSolverAlgorithm.h\<close>, which is not among the sources. The spec says that
      the pressure equation "uses no relaxation" and that a factor of "1.0 = no relaxation".\<close>
  "diagRelaxFactor_default = 1"

definition AssembleElemSolverAlgorithm_new ::
  "Realm \<Rightarrow> EquationSystem \<Rightarrow> nat \<Rightarrow> nat \<Rightarrow> bool \<Rightarrow> ('ti, 'pre) AssembleElemSolverAlgorithm"
where
  "AssembleElemSolverAlgorithm_new realm eqSystem entityRank' nodesPerEntity' interleaveMEViews' =
     \<lparr> entityRank = entityRank',
       nodesPerEntity = nodesPerEntity',
       rhsSize = nodesPerEntity' * numDof (linsys eqSystem),
       interleaveMEViews = interleaveMEViews',
       diagRelaxFactor =
         (if dofName eqSystem \<noteq> ''pressure''
          then get_relaxation_factor (solutionOptions realm) (dofName eqSystem)
          else diagRelaxFactor_default),
       activeKernels = [] \<rparr>"

subsection \<open>Helpers of the batch lambda\<close>

definition set_zero :: "DoubleType \<Rightarrow> DoubleType" where
  \<comment> \<open>Modelled from the spec: \<^verbatim>\<open>set_zero\<close> is declared in a header that is not among the
      sources ("zero a batched local LHS/RHS"). Every lane of a pack becomes 0.\<close>
  "set_zero v = map (\<lambda>_. 0) v"

definition extract_vector_lane :: "DoubleType list \<Rightarrow> nat \<Rightarrow> real list" where
  \<comment> \<open>Modelled from the spec: \<^verbatim>\<open>extract_vector_lane\<close> is in \<^verbatim>\<open>CopyAndInterleave.h\<close>, which is
      not among the sources ("extract that lane's scalar LHS/RHS from the batched
      (vectorized) representation"). Every entry of the target is overwritten.\<close>
  "extract_vector_lane simdview simdIndex = map (\<lambda>v. v ! simdIndex) simdview"

definition extract_vector_lane2 :: "DoubleType list list \<Rightarrow> nat \<Rightarrow> real list list" where
  \<comment> \<open>Modelled from the spec: the rank-2 overload of \<^verbatim>\<open>extract_vector_lane\<close>.\<close>
  "extract_vector_lane2 simdview simdIndex = map (\<lambda>row. extract_vector_lane row simdIndex) simdview"

text \<open>
  \<^verbatim>\<open>for (i = 0; i < activeKernels_.size(); ++i) activeKernels_[i]->execute(simdlhs, simdrhs, prereq)\<close>
\<close>

fun kernels_execute ::
  "('ti, 'pre) Kernel list \<Rightarrow> DoubleType list list \<Rightarrow> DoubleType list \<Rightarrow> 'pre \<Rightarrow>
     DoubleType list list \<times> DoubleType list"
where
  "kernels_execute [] l r pre = (l, r)"
| "kernels_execute (k # ks) l r pre =
     (case kernel_execute k l r pre of (l', r') \<Rightarrow> kernels_execute ks l' r' pre)"

text \<open>
  \<^verbatim>\<open>for (int ir = 0; ir < rhsSize_; ++ir) smdata.lhs(ir, ir) /= diagRelaxFactor_;\<close>
  \<open>relax_diagonal n f l\<close> runs the body for \<open>ir = 0, \<dots>, n - 1\<close> on the view \<open>l\<close>. An
  index outside the view, which the source must not be given, leaves the list as it is.
\<close>

definition relax_entry :: "real \<Rightarrow> real list list \<Rightarrow> nat \<Rightarrow> real list list" where
  "relax_entry f l ir = l[ir := (l ! ir)[ir := l ! ir ! ir / f]]"

definition relax_diagonal :: "nat \<Rightarrow> real \<Rightarrow> real list list \<Rightarrow> real list list" where
  "relax_diagonal n f l = foldl (relax_entry f) l [0..<n]"

text \<open>The body of the loop over the lanes of one batch, and the loop.\<close>

definition lane_step ::
  "('ti, 'pre) AssembleElemSolverAlgorithm \<Rightarrow> ('pre, 'ent) SharedMemData \<Rightarrow> nat \<Rightarrow>
     ('pre, 'ent) SharedMemData \<times> 'ent apply_coeff_call"
where
  "lane_step alg smdata simdElemIndex =
     (let sm1 = smdata\<lparr>rhs := extract_vector_lane (simdrhs smdata) simdElemIndex\<rparr>;
          sm2 = sm1\<lparr>lhs := extract_vector_lane2 (simdlhs sm1) simdElemIndex\<rparr>;
          sm3 = sm2\<lparr>lhs := relax_diagonal (rhsSize alg) (diagRelaxFactor alg) (lhs sm2)\<rparr>
      in (sm3, \<lparr> ac_numEntities = nodesPerEntity alg,
                 ac_entities = ngpElemNodes sm3 ! simdElemIndex,
                 ac_rhs = rhs sm3,
                 ac_lhs = lhs sm3 \<rparr>))"

fun lane_loop ::
  "('ti, 'pre) AssembleElemSolverAlgorithm \<Rightarrow> ('pre, 'ent) SharedMemData \<Rightarrow> nat list \<Rightarrow>
     ('pre, 'ent) SharedMemData \<times> 'ent apply_coeff_call list"
where
  "lane_loop alg smdata [] = (smdata, [])"
| "lane_loop alg smdata (i # is) =
     (case lane_step alg smdata i of (sm', c) \<Rightarrow>
        (case lane_loop alg sm' is of (sm'', cs) \<Rightarrow> (sm'', c # cs)))"

text \<open>The state of the batch when the kernels have run, before the loop over the lanes.\<close>

definition batch_kernels ::
  "('ti, 'pre) AssembleElemSolverAlgorithm \<Rightarrow> ('pre, 'ent) SharedMemData \<Rightarrow>
     ('pre, 'ent) SharedMemData"
where
  "batch_kernels alg smdata =
     (let sm1 = smdata\<lparr>simdrhs := map set_zero (simdrhs smdata)\<rparr>;
          sm2 = sm1\<lparr>simdlhs := map (map set_zero) (simdlhs sm1)\<rparr>
      in case kernels_execute (activeKernels alg) (simdlhs sm2) (simdrhs sm2) (simdPrereqData sm2)
         of (l, r) \<Rightarrow> sm2\<lparr>simdlhs := l, simdrhs := r\<rparr>)"

text \<open>The lambda passed to \<^verbatim>\<open>run_algorithm\<close>: the calls of \<^verbatim>\<open>apply_coeff\<close> of one batch.\<close>

definition batch_lambda ::
  "('ti, 'pre) AssembleElemSolverAlgorithm \<Rightarrow> ('pre, 'ent) SharedMemData \<Rightarrow>
     'ent apply_coeff_call list"
where
  "batch_lambda alg smdata =
     snd (lane_loop alg (batch_kernels alg smdata) [0..<numSimdElems (batch_kernels alg smdata)])"

definition run_algorithm ::
  "('pre, 'ent) SharedMemData list \<Rightarrow> (('pre, 'ent) SharedMemData \<Rightarrow> 'c) \<Rightarrow> 'c list"
where
  \<comment> \<open>Modelled from the spec: \<^verbatim>\<open>run_algorithm\<close> is a template of the header, which is not
      among the sources ("Batch loop (over groups of elements sized to the platform's
      SIMD width, last batch possibly partial)"). The batches arrive gathered, one
      \<^verbatim>\<open>SharedMemData\<close> each; the result keeps what the lambda did per batch.\<close>
  "run_algorithm batches lambdaFunc = map lambdaFunc batches"

text \<open>
  \<^verbatim>\<open>for (i = 0; i < activeKernels_.size(); ++i) activeKernels_[i]->setup(*realm_.timeIntegrator_)\<close>
\<close>

definition kernels_setup ::
  "('ti, 'pre) AssembleElemSolverAlgorithm \<Rightarrow> 'ti \<Rightarrow> ('ti, 'pre) AssembleElemSolverAlgorithm"
where
  "kernels_setup alg timeIntegrator =
     alg\<lparr>activeKernels := map (\<lambda>k. kernel_setup k timeIntegrator) (activeKernels alg)\<rparr>"

definition execute ::
  "('ti, 'pre) AssembleElemSolverAlgorithm \<Rightarrow> 'ti \<Rightarrow> ('pre, 'ent) SharedMemData list \<Rightarrow>
     ('ti, 'pre) AssembleElemSolverAlgorithm \<times> 'ent apply_coeff_call list list"
where
  "execute alg timeIntegrator batches =
     (let alg' = kernels_setup alg timeIntegrator
      in (alg', run_algorithm batches (batch_lambda alg')))"

text \<open>
  What the lane loop extracts for lane \<open>i\<close> of a batch, before relaxation.
\<close>

definition extracted_lhs ::
  "('ti, 'pre) AssembleElemSolverAlgorithm \<Rightarrow> ('pre, 'ent) SharedMemData \<Rightarrow> nat \<Rightarrow> real list list"
where
  "extracted_lhs alg smdata i = extract_vector_lane2 (simdlhs (batch_kernels alg smdata)) i"

definition extracted_rhs ::
  "('ti, 'pre) AssembleElemSolverAlgorithm \<Rightarrow> ('pre, 'ent) SharedMemData \<Rightarrow> nat \<Rightarrow> real list"
where
  "extracted_rhs alg smdata i = extract_vector_lane (simdrhs (batch_kernels alg smdata)) i"

subsection \<open>A concrete algorithm and batch\<close>

text \<open>
  A kernel whose coefficient is set by \<^verbatim>\<open>setup\<close> and which adds that coefficient times the
  gathered data to the LHS, and the coefficient to every RHS entry; a batch of two lanes
  for views of two rows; realms whose solution options hold one factor for every
  equation, or the factor 2 for \<^verbatim>\<open>velocity\<close> and 7/10 for the others; an equation system of
  a given name with one degree of freedom per node. They instantiate the theorems below.
\<close>

primcorec example_kernel :: "real \<Rightarrow> (real, DoubleType list list) Kernel" where
  "kernel_setup (example_kernel c) = (\<lambda>ti. example_kernel ti)"
| "kernel_execute (example_kernel c) =
     (\<lambda>l r pre. (map2 (map2 (map2 (\<lambda>x y. x + c * y))) l pre, map (map (\<lambda>x. x + c)) r))"

definition example_batch :: "(DoubleType list list, nat list) SharedMemData" where
  "example_batch = \<lparr> simdrhs = [[7, 7], [7, 7]], simdlhs = [[[9, 9], [9, 9]], [[9, 9], [9, 9]]],
      simdPrereqData = [[[1, 5], [2, 6]], [[3, 7], [4, 8]]],
      numSimdElems = 2, ngpElemNodes = [[10, 11], [11, 12]], rhs = [], lhs = [] \<rparr>"

definition example_realm :: "real \<Rightarrow> Realm" where
  "example_realm f = \<lparr> solutionOptions = \<lparr> get_relaxation_factor = (\<lambda>_. f) \<rparr> \<rparr>"

definition example_realm_by_name :: Realm where
  "example_realm_by_name =
     \<lparr> solutionOptions =
         \<lparr> get_relaxation_factor = (\<lambda>name. if name = ''velocity'' then 2 else 7 / 10) \<rparr> \<rparr>"

definition example_eqSystem :: "string \<Rightarrow> EquationSystem" where
  "example_eqSystem name = \<lparr> dofName = name, linsys = \<lparr> numDof = 1 \<rparr> \<rparr>"

section \<open>Element descriptions\<close>

text \<open>
  \<^verbatim>\<open>ElementDescription\<close> is declared in \<^verbatim>\<open>element_promotion/ElementDescription.h\<close>, which is
  not among the sources; only its callers in \<^verbatim>\<open>unit_tests/UnitTestHOMasterElements.C\<close> are.
  The record has the members those callers read. The forward map \<^verbatim>\<open>node_map(i, j)\<close>,
  \<^verbatim>\<open>node_map(i, j, k)\<close> takes the list of its arguments; \<^verbatim>\<open>inverseNodeMap\<close> has one row of
  tensor indices per node.
\<close>

datatype error = InvalidOrderError

record ElementDescription =
  dimension :: nat
  polyOrder :: nat
  nodes1D :: nat
  nodesPerElement :: nat
  nodeLocs1D :: "real list"
  node_map :: "nat list \<Rightarrow> nat"
  inverseNodeMap :: "nat list list"

definition create :: "(nat \<Rightarrow> real list) \<Rightarrow> int \<Rightarrow> int \<Rightarrow> error + ElementDescription" where
  \<comment> \<open>Modelled from the spec: \<^verbatim>\<open>ElementDescription::create\<close> is not among the sources.
      "\<^verbatim>\<open>create(dimension, order)\<close> fails with \<^verbatim>\<open>InvalidOrderError\<close> if order < 1 or dimension
      not in {2,3}"; "node count = (order+1)^dimension"; "reference implementations may
      choose any consistent layout (row-major or otherwise) as long as \<^verbatim>\<open>node_map\<close> and
      \<^verbatim>\<open>inverseNodeMap\<close> agree": the layout here has the first index running fastest. The
      spec leaves the rule for the 1-D node locations open ("e.g. Gauss-Lobatto-type");
      it is the parameter \<open>nodeLocations\<close>, a function of the polynomial order.\<close>
  "create nodeLocations d order' =
     (if order' < 1 \<or> d \<notin> {2, 3} then Inl InvalidOrderError
      else
        let p = nat order'; m = p + 1 in
        Inr \<lparr> dimension = nat d,
              polyOrder = p,
              nodes1D = m,
              nodesPerElement = m ^ nat d,
              nodeLocs1D = nodeLocations p,
              node_map = (\<lambda>idx. if d = 2 then idx ! 0 + m * idx ! 1
                                else idx ! 0 + m * (idx ! 1 + m * idx ! 2)),
              inverseNodeMap =
                (if d = 2 then map (\<lambda>n. [n mod m, n div m]) [0..<m ^ 2]
                 else map (\<lambda>n. [n mod m, (n div m) mod m, n div (m * m)]) [0..<m ^ 3]) \<rparr>)"

text \<open>All tensor indices of \<open>d\<close> components below \<open>m\<close>.\<close>

definition index_tuples :: "nat \<Rightarrow> nat \<Rightarrow> nat list list" where
  "index_tuples d m = List.n_lists d [0..<m]"

definition description_invariant :: "ElementDescription \<Rightarrow> bool" where
  \<comment> \<open>Modelled from the spec: the invariant of the data model. "Holds: polynomial order;
      nodes-per-dimension count; total nodes-per-element; a forward map from (i,j[,k])
      tensor indices to a linear node id; an inverse map from linear node id back to tensor
      indices; the ordered 1-D node locations in reference coordinates [-1,1]. Invariant:
      the forward and inverse maps are exact inverses; node count = (order+1)^dimension."\<close>
  "description_invariant desc \<longleftrightarrow>
     nodes1D desc = polyOrder desc + 1 \<and>
     nodesPerElement desc = nodes1D desc ^ dimension desc \<and>
     length (nodeLocs1D desc) = nodes1D desc \<and>
     sorted_wrt (<) (nodeLocs1D desc) \<and>
     (\<forall>x \<in> set (nodeLocs1D desc). - 1 \<le> x \<and> x \<le> 1) \<and>
     length (inverseNodeMap desc) = nodesPerElement desc \<and>
     (\<forall>n \<in> set [0..<nodesPerElement desc].
        inverseNodeMap desc ! n \<in> set (index_tuples (dimension desc) (nodes1D desc)) \<and>
        node_map desc (inverseNodeMap desc ! n) = n) \<and>
     (\<forall>idx \<in> set (index_tuples (dimension desc) (nodes1D desc)).
        node_map desc idx < nodesPerElement desc \<and>
        inverseNodeMap desc ! node_map desc idx = idx)"

section \<open>The Lagrange basis\<close>

text \<open>
  \<^verbatim>\<open>LagrangeBasis\<close> is declared in \<^verbatim>\<open>element_promotion/LagrangeBasis.h\<close>, which is not among
  the sources. The unit tests construct it from \<^verbatim>\<open>inverseNodeMap\<close> and \<^verbatim>\<open>nodeLocs1D\<close>, pass
  the evaluation points as one flat vector (\<^verbatim>\<open>dimension\<close> coordinates per point), and read
  the weights as \<^verbatim>\<open>interpWeights[ip * nodesPerElement + node]\<close> and
  \<^verbatim>\<open>diffWeights[(ip * nodesPerElement + node) * dimension + d]\<close>. Arithmetic is exact
  (real numbers).
\<close>

record LagrangeBasis =
  indicesMap :: "nat list list"
  numNodes1D :: nat
  numNodes :: nat
  basisDim :: nat
  nodeLocs :: "real list"

definition LagrangeBasis_new :: "nat list list \<Rightarrow> real list \<Rightarrow> LagrangeBasis" where
  \<comment> \<open>Modelled from the spec: the constructor is not among the sources. The basis "owns a
      reference to node locations and the inverse node map"; its dimension is the number
      of tensor indices of a node.\<close>
  "LagrangeBasis_new indicesMap' nodeLocs' =
     \<lparr> indicesMap = indicesMap',
       numNodes1D = length nodeLocs',
       numNodes = length indicesMap',
       basisDim = (case indicesMap' of [] \<Rightarrow> 0 | idx # _ \<Rightarrow> length idx),
       nodeLocs = nodeLocs' \<rparr>"

definition interpolation_weight :: "LagrangeBasis \<Rightarrow> real \<Rightarrow> nat \<Rightarrow> real" where
  \<comment> \<open>Modelled from the spec: "nodal Lagrange interpolation in 1-D": the Lagrange
      polynomial of node \<open>i\<close>, the product over the other nodes \<open>j\<close> of
      \<open>(x - x\<^sub>j) / (x\<^sub>i - x\<^sub>j)\<close>.\<close>
  "interpolation_weight b x i =
     prod_list (map (\<lambda>j. (x - nodeLocs b ! j) / (nodeLocs b ! i - nodeLocs b ! j))
                    (filter (\<lambda>j. j \<noteq> i) [0..<numNodes1D b]))"

definition derivative_weight :: "LagrangeBasis \<Rightarrow> real \<Rightarrow> nat \<Rightarrow> real" where
  \<comment> \<open>Modelled from the spec: "the 1-D Lagrange derivative": the derivative of the Lagrange
      polynomial of node \<open>i\<close>, by the product rule one term per other node \<open>k\<close>.\<close>
  "derivative_weight b x i =
     sum_list (map (\<lambda>k. 1 / (nodeLocs b ! i - nodeLocs b ! k) *
                 prod_list (map (\<lambda>j. (x - nodeLocs b ! j) / (nodeLocs b ! i - nodeLocs b ! j))
                                (filter (\<lambda>j. j \<noteq> k) (filter (\<lambda>j. j \<noteq> i) [0..<numNodes1D b]))))
               (filter (\<lambda>k. k \<noteq> i) [0..<numNodes1D b]))"

definition tensor_lagrange_interpolant :: "LagrangeBasis \<Rightarrow> real list \<Rightarrow> nat list \<Rightarrow> real" where
  \<comment> \<open>Modelled from the spec: "tensor-producted across dimensions".\<close>
  "tensor_lagrange_interpolant b x nodes =
     prod_list (map (\<lambda>j. interpolation_weight b (x ! j) (nodes ! j)) [0..<basisDim b])"

definition tensor_lagrange_derivative ::
  "LagrangeBasis \<Rightarrow> real list \<Rightarrow> nat list \<Rightarrow> nat \<Rightarrow> real" where
  \<comment> \<open>Modelled from the spec: "dimension-wise application of the 1-D Lagrange derivative
      through the product rule".\<close>
  "tensor_lagrange_derivative b x nodes derivativeDirection =
     prod_list (map (\<lambda>j. if j = derivativeDirection
                          then derivative_weight b (x ! j) (nodes ! j)
                          else interpolation_weight b (x ! j) (nodes ! j)) [0..<basisDim b])"

definition eval_point :: "LagrangeBasis \<Rightarrow> real list \<Rightarrow> nat \<Rightarrow> real list" where
  \<comment> \<open>Modelled from the spec: the coordinates of point \<open>ip\<close> in the flat vector of points.\<close>
  "eval_point b intgLoc ip = take (basisDim b) (drop (ip * basisDim b) intgLoc)"

definition eval_basis_weights :: "LagrangeBasis \<Rightarrow> real list \<Rightarrow> real list" where
  \<comment> \<open>Modelled from the spec: "for N evaluation points and the element's M 1-D nodes
      tensor-producted into M^d nodes, returns an N\<times>(M^d) weight matrix", stored row by row.\<close>
  "eval_basis_weights b intgLoc =
     concat (map (\<lambda>ip. map (\<lambda>n. tensor_lagrange_interpolant b (eval_point b intgLoc ip)
                                   (indicesMap b ! n)) [0..<numNodes b])
                 [0..<length intgLoc div basisDim b])"

definition eval_deriv_weights :: "LagrangeBasis \<Rightarrow> real list \<Rightarrow> real list" where
  \<comment> \<open>Modelled from the spec: "returns an N\<times>(M^d)\<times>dimension derivative-weight tensor", the
      direction running fastest.\<close>
  "eval_deriv_weights b intgLoc =
     concat (map (\<lambda>ip. concat (map (\<lambda>n. map (\<lambda>d. tensor_lagrange_derivative b
                                   (eval_point b intgLoc ip) (indicesMap b ! n) d) [0..<basisDim b])
                                   [0..<numNodes b]))
                 [0..<length intgLoc div basisDim b])"

section \<open>The computations of the unit tests\<close>

text \<open>
  From \<^verbatim>\<open>unit_tests/UnitTestHOMasterElements.C\<close>. \<^verbatim>\<open>std::pow(x, j)\<close> is \<open>x ^ j\<close>. The random
  draws of the tests (coefficients, evaluation points) are arguments.
\<close>

definition poly_val :: "real list \<Rightarrow> real \<Rightarrow> real" where
  "poly_val coeffs x = sum_list (map (\<lambda>j. coeffs ! j * x ^ j) [0..<length coeffs])"

definition poly_der :: "real list \<Rightarrow> real \<Rightarrow> real" where
  "poly_der coeffs x = sum_list (map (\<lambda>j. coeffs ! j * x ^ (j - 1) * real j) [1..<length coeffs])"

text \<open>
  The loops \<^verbatim>\<open>for i < nodes1D, for j < nodes1D [, for k < nodes1D]\<close> of the tests visit the
  tensor indices in this order and store \<^verbatim>\<open>nodalValues[node_map(i, j[, k])] = ...\<close> into a
  vector of \<^verbatim>\<open>nodesPerElement\<close> zeros.
\<close>

definition quad_indices :: "nat \<Rightarrow> nat list list" where
  "quad_indices m = concat (map (\<lambda>i. map (\<lambda>j. [i, j]) [0..<m]) [0..<m])"

definition hex_indices :: "nat \<Rightarrow> nat list list" where
  "hex_indices m =
     concat (map (\<lambda>i. concat (map (\<lambda>j. map (\<lambda>k. [i, j, k]) [0..<m]) [0..<m])) [0..<m])"

definition fill_nodal_values ::
  "ElementDescription \<Rightarrow> (nat list \<Rightarrow> real) \<Rightarrow> nat list list \<Rightarrow> real list" where
  "fill_nodal_values desc f idxs =
     foldl (\<lambda>v idx. v[node_map desc idx := f idx]) (replicate (nodesPerElement desc) 0) idxs"

definition nodal_poly_quad :: "ElementDescription \<Rightarrow> real list \<Rightarrow> real list \<Rightarrow> real list" where
  "nodal_poly_quad desc coeffsX coeffsY =
     fill_nodal_values desc
       (\<lambda>idx. poly_val coeffsX (nodeLocs1D desc ! (idx ! 0))
             * poly_val coeffsY (nodeLocs1D desc ! (idx ! 1)))
       (quad_indices (nodes1D desc))"

definition nodal_poly_hex ::
  "ElementDescription \<Rightarrow> real list \<Rightarrow> real list \<Rightarrow> real list \<Rightarrow> real list" where
  "nodal_poly_hex desc coeffsX coeffsY coeffsZ =
     fill_nodal_values desc
       (\<lambda>idx. poly_val coeffsX (nodeLocs1D desc ! (idx ! 0))
             * poly_val coeffsY (nodeLocs1D desc ! (idx ! 1))
             * poly_val coeffsZ (nodeLocs1D desc ! (idx ! 2)))
       (hex_indices (nodes1D desc))"

text \<open>
  \<^verbatim>\<open>approxInterp[ip]\<close> of \<^verbatim>\<open>check_interpolation_quad\<close> and \<^verbatim>\<open>check_interpolation_hex\<close>, and
  \<^verbatim>\<open>approxDeriv[ip * dimension + d]\<close> of \<^verbatim>\<open>check_derivative_quad\<close> and
  \<^verbatim>\<open>check_derivative_hex\<close>.
\<close>

definition approx_interp :: "real list \<Rightarrow> real list \<Rightarrow> nat \<Rightarrow> nat \<Rightarrow> real" where
  "approx_interp interpWeights nodalValues npe ip =
     sum_list (map (\<lambda>nodeNumber. interpWeights ! (ip * npe + nodeNumber) * nodalValues ! nodeNumber)
                   [0..<npe])"

definition approx_deriv :: "real list \<Rightarrow> real list \<Rightarrow> nat \<Rightarrow> nat \<Rightarrow> nat \<Rightarrow> nat \<Rightarrow> real" where
  "approx_deriv diffWeights nodalValues npe dimension' ip d =
     sum_list (map (\<lambda>node. diffWeights ! ((ip * npe + node) * dimension' + d) * nodalValues ! node)
                   [0..<npe])"

subsection \<open>Concrete descriptions\<close>

text \<open>
  Node locations for the orders 1 and 2 (the end points, and the end points with the
  midpoint), a quadrilateral description of order 2 and a hexahedral one of order 1.
\<close>

definition example_nodeLocations :: "nat \<Rightarrow> real list" where
  "example_nodeLocations p = (if p = 2 then [- 1, 0, 1] else [- 1, 1])"

definition example_quad :: ElementDescription where
  "example_quad = projr (create example_nodeLocations 2 2)"

definition example_hex :: ElementDescription where
  "example_hex = projr (create example_nodeLocations 3 1)"

section \<open>Polynomial functions\<close>

text \<open>A real function that is a polynomial of degree at most \<open>n\<close>.\<close>

definition polyfn :: "nat \<Rightarrow> (real \<Rightarrow> real) \<Rightarrow> bool" where
  "polyfn n f \<longleftrightarrow> (\<exists>c. \<forall>x. f x = (\<Sum>i\<le>n. c i * x ^ i))"

section \<open>Properties of the relaxation loop\<close>

lemma relax_entry_length [simp]: "length (relax_entry f l ir) = length l"
  by (simp add: relax_entry_def)

lemma relax_entry_row_length [simp]: "length (relax_entry f l ir ! i) = length (l ! i)"
  by (cases "ir < length l"; cases "i = ir") (simp_all add: relax_entry_def list_update_beyond)

lemma relax_entry_other:
  "\<not> (i = ir \<and> j = ir) \<Longrightarrow> relax_entry f l ir ! i ! j = l ! i ! j"
  by (cases "ir < length l"; cases "i = ir") (auto simp: relax_entry_def list_update_beyond)

lemma relax_entry_diag:
  "ir < length l \<Longrightarrow> ir < length (l ! ir) \<Longrightarrow> relax_entry f l ir ! ir ! ir = l ! ir ! ir / f"
  by (simp add: relax_entry_def)

lemma relax_entry_one [simp]: "relax_entry 1 l ir = l"
  by (simp add: relax_entry_def)

lemma relax_diagonal_Suc:
  "relax_diagonal (Suc n) f l = relax_entry f (relax_diagonal n f l) n"
  by (simp add: relax_diagonal_def)

lemma relax_diagonal_0 [simp]: "relax_diagonal 0 f l = l"
  by (simp add: relax_diagonal_def)

lemma relax_diagonal_length [simp]: "length (relax_diagonal n f l) = length l"
  by (induction n) (simp_all add: relax_diagonal_Suc)

lemma relax_diagonal_row_length [simp]: "length (relax_diagonal n f l ! i) = length (l ! i)"
  by (induction n) (simp_all add: relax_diagonal_Suc)

lemma relax_diagonal_other:
  "\<not> (i = j \<and> i < n) \<Longrightarrow> relax_diagonal n f l ! i ! j = l ! i ! j"
proof (induction n)
  case 0
  then show ?case by simp
next
  case (Suc n)
  then have "\<not> (i = n \<and> j = n)" and "\<not> (i = j \<and> i < n)" by auto
  then show ?case using Suc.IH by (simp add: relax_diagonal_Suc relax_entry_other)
qed

lemma relax_diagonal_diag:
  "ir < n \<Longrightarrow> ir < length l \<Longrightarrow> ir < length (l ! ir) \<Longrightarrow>
   relax_diagonal n f l ! ir ! ir = l ! ir ! ir / f"
proof (induction n)
  case 0
  then show ?case by simp
next
  case (Suc n)
  show ?case
  proof (cases "ir = n")
    case True
    have "relax_diagonal n f l ! n ! n = l ! n ! n"
      by (rule relax_diagonal_other) simp
    with True Suc.prems show ?thesis
      by (simp add: relax_diagonal_Suc relax_entry_diag)
  next
    case False
    with Suc show ?thesis
      by (simp add: relax_diagonal_Suc relax_entry_other)
  qed
qed

lemma relax_diagonal_one [simp]: "relax_diagonal n 1 l = l"
  by (induction n) (simp_all add: relax_diagonal_Suc)

section \<open>The calls of one batch\<close>

lemma lane_step_simdlhs [simp]: "simdlhs (fst (lane_step alg sm i)) = simdlhs sm"
  and lane_step_simdrhs [simp]: "simdrhs (fst (lane_step alg sm i)) = simdrhs sm"
  and lane_step_ngpElemNodes [simp]: "ngpElemNodes (fst (lane_step alg sm i)) = ngpElemNodes sm"
  by (simp_all add: lane_step_def Let_def)

lemma lane_step_call:
  "snd (lane_step alg sm i) =
     \<lparr> ac_numEntities = nodesPerEntity alg,
       ac_entities = ngpElemNodes sm ! i,
       ac_rhs = extract_vector_lane (simdrhs sm) i,
       ac_lhs = relax_diagonal (rhsSize alg) (diagRelaxFactor alg)
                  (extract_vector_lane2 (simdlhs sm) i) \<rparr>"
  by (simp add: lane_step_def Let_def)

lemma lane_loop_calls:
  "snd (lane_loop alg sm is) =
     map (\<lambda>i. \<lparr> ac_numEntities = nodesPerEntity alg,
                ac_entities = ngpElemNodes sm ! i,
                ac_rhs = extract_vector_lane (simdrhs sm) i,
                ac_lhs = relax_diagonal (rhsSize alg) (diagRelaxFactor alg)
                           (extract_vector_lane2 (simdlhs sm) i) \<rparr>) is"
proof (induction "is" arbitrary: sm)
  case Nil
  then show ?case by simp
next
  case (Cons i "is")
  have "snd (lane_loop alg sm (i # is)) =
          snd (lane_step alg sm i) # snd (lane_loop alg (fst (lane_step alg sm i)) is)"
    by (simp add: split_beta)
  then show ?case
    by (simp add: Cons.IH lane_step_call)
qed

lemma batch_lambda_length [simp]:
  "length (batch_lambda alg sm) = numSimdElems (batch_kernels alg sm)"
  by (simp add: batch_lambda_def lane_loop_calls)

lemma batch_kernels_numSimdElems [simp]:
  "numSimdElems (batch_kernels alg sm) = numSimdElems sm"
  by (simp add: batch_kernels_def Let_def split: prod.split)

lemma batch_kernels_ngpElemNodes [simp]:
  "ngpElemNodes (batch_kernels alg sm) = ngpElemNodes sm"
  by (simp add: batch_kernels_def Let_def split: prod.split)

lemma batch_lambda_nth:
  "i < numSimdElems sm \<Longrightarrow>
   batch_lambda alg sm ! i =
     \<lparr> ac_numEntities = nodesPerEntity alg,
       ac_entities = ngpElemNodes sm ! i,
       ac_rhs = extracted_rhs alg sm i,
       ac_lhs = relax_diagonal (rhsSize alg) (diagRelaxFactor alg) (extracted_lhs alg sm i) \<rparr>"
  by (simp add: batch_lambda_def lane_loop_calls extracted_lhs_def extracted_rhs_def)

lemma execute_nth:
  "b < length batches \<Longrightarrow>
   snd (execute alg ti batches) ! b = batch_lambda (kernels_setup alg ti) (batches ! b)"
  by (simp add: execute_def kernels_setup_def run_algorithm_def Let_def)

lemma execute_length [simp]: "length (snd (execute alg ti batches)) = length batches"
  by (simp add: execute_def run_algorithm_def Let_def)

lemma kernels_setup_fields [simp]:
  "rhsSize (kernels_setup alg ti) = rhsSize alg"
  "diagRelaxFactor (kernels_setup alg ti) = diagRelaxFactor alg"
  "nodesPerEntity (kernels_setup alg ti) = nodesPerEntity alg"
  by (simp_all add: kernels_setup_def execute_def Let_def)

lemmas example_defs = execute_def run_algorithm_def batch_lambda_def batch_kernels_def
  example_realm_by_name_def example_batch_def lane_step_def extract_vector_lane_def extract_vector_lane2_def
  set_zero_def relax_diagonal_def relax_entry_def kernels_setup_def extracted_lhs_def
  extracted_rhs_def Let_def upt_rec example_realm_def example_eqSystem_def
  AssembleElemSolverAlgorithm_new_def diagRelaxFactor_default_def

section \<open>Diagonal relaxation\<close>

text \<open>
  C1. For an algorithm made by the constructor for an equation other than \<^verbatim>\<open>pressure\<close>
  (with any kernels registered afterwards), let \<open>r\<close> be the relaxation factor that the
  solution options of the realm hold for the equation's name, taken positive as the
  configuration contract has it. In every batch \<open>b\<close> and for every lane \<open>i\<close> of it, the LHS
  handed to \<^verbatim>\<open>apply_coeff\<close> has, at every diagonal position \<open>ir < nodesPerEntity * numDof\<close>
  that lies inside the extracted local LHS, the extracted value divided by \<open>r\<close>; with
  \<open>r = 1\<close> the entry is the extracted value itself. The extracted LHS is what
  \<^verbatim>\<open>extract_vector_lane\<close> reads from the batched LHS once the kernels (after their
  \<^verbatim>\<open>setup\<close>) have run; since the statement is about the argument of the scatter call, no
  other step of the lane processing changes the diagonal.
\<close>

theorem diagonal_relaxation:
  assumes "dofName eqSystem \<noteq> ''pressure''"
    and "alg = (AssembleElemSolverAlgorithm_new realm eqSystem er n il)\<lparr>activeKernels := ks\<rparr>"
    and "r = get_relaxation_factor (solutionOptions realm) (dofName eqSystem)"
    and "0 < r"
    and "b < length batches" and "i < numSimdElems (batches ! b)"
    and "ir < n * numDof (linsys eqSystem)"
    and "ir < length (extracted_lhs (kernels_setup alg ti) (batches ! b) i)"
    and "ir < length (extracted_lhs (kernels_setup alg ti) (batches ! b) i ! ir)"
  shows "ac_lhs (snd (execute alg ti batches) ! b ! i) ! ir ! ir =
           extracted_lhs (kernels_setup alg ti) (batches ! b) i ! ir ! ir / r
       \<and> (r = 1 \<longrightarrow>
            ac_lhs (snd (execute alg ti batches) ! b ! i) ! ir ! ir =
              extracted_lhs (kernels_setup alg ti) (batches ! b) i ! ir ! ir)"
proof -
  have f: "diagRelaxFactor alg = r" and sz: "rhsSize alg = n * numDof (linsys eqSystem)"
    using assms(1,2,3) by (simp_all add: AssembleElemSolverAlgorithm_new_def)
  have call: "ac_lhs (snd (execute alg ti batches) ! b ! i) =
      relax_diagonal (n * numDof (linsys eqSystem)) r
        (extracted_lhs (kernels_setup alg ti) (batches ! b) i)"
    using assms(5,6) by (simp add: execute_nth batch_lambda_nth f sz)
  have "ac_lhs (snd (execute alg ti batches) ! b ! i) ! ir ! ir =
           extracted_lhs (kernels_setup alg ti) (batches ! b) i ! ir ! ir / r"
    unfolding call using assms(7,8,9) by (rule relax_diagonal_diag)
  then show ?thesis by simp
qed

theorem diagonal_relaxation_witness:
  "dofName (example_eqSystem ''velocity'') \<noteq> ''pressure''
   \<and> (2::real) = get_relaxation_factor (solutionOptions example_realm_by_name)
                    (dofName (example_eqSystem ''velocity''))
   \<and> (0::real) < 2
   \<and> (0::nat) < length [example_batch] \<and> (1::nat) < numSimdElems ([example_batch] ! 0)
   \<and> (0::nat) < 2 * numDof (linsys (example_eqSystem ''velocity''))
   \<and> extracted_lhs (kernels_setup
         ((AssembleElemSolverAlgorithm_new example_realm_by_name (example_eqSystem ''velocity'')
             3 2 True)\<lparr>activeKernels := [example_kernel 0]\<rparr>) 3) ([example_batch] ! 0) 1
       = [[15, 18], [21, 24]]
   \<and> ac_lhs (snd (execute
         ((AssembleElemSolverAlgorithm_new example_realm_by_name (example_eqSystem ''velocity'')
             3 2 True)\<lparr>activeKernels := [example_kernel 0]\<rparr>) 3 [example_batch]) ! 0 ! 1) ! 0 ! 0
       = 15 / 2"
proof -
  let ?alg = "(AssembleElemSolverAlgorithm_new example_realm_by_name (example_eqSystem ''velocity'')
             3 2 True)\<lparr>activeKernels := [example_kernel 0]\<rparr>"
  have e: "extracted_lhs (kernels_setup ?alg 3) ([example_batch] ! 0) 1 = [[15, 18], [21, 24]]"
    by (simp add: example_defs)
  have h1: "dofName (example_eqSystem ''velocity'') \<noteq> ''pressure''"
    by (simp add: example_eqSystem_def)
  have h3: "(2::real) = get_relaxation_factor (solutionOptions example_realm_by_name)
                    (dofName (example_eqSystem ''velocity''))"
    by (simp add: example_realm_by_name_def example_eqSystem_def)
  have h4: "(0::real) < 2" by simp
  have h5: "(0::nat) < length [example_batch]" by simp
  have h6: "(1::nat) < numSimdElems ([example_batch] ! 0)" by (simp add: example_batch_def)
  have h7: "(0::nat) < 2 * numDof (linsys (example_eqSystem ''velocity''))"
    by (simp add: example_eqSystem_def)
  have h8: "0 < length (extracted_lhs (kernels_setup ?alg 3) ([example_batch] ! 0) 1)"
    unfolding e by simp
  have h9: "0 < length (extracted_lhs (kernels_setup ?alg 3) ([example_batch] ! 0) 1 ! 0)"
    unfolding e by simp
  have "ac_lhs (snd (execute ?alg 3 [example_batch]) ! 0 ! 1) ! 0 ! 0 =
          [[15, 18], [21, 24]] ! 0 ! 0 / 2"
    using diagonal_relaxation [OF h1 refl h3 h4 h5 h6 h7 h8 h9] unfolding e by (rule conjunct1)
  then have "ac_lhs (snd (execute ?alg 3 [example_batch]) ! 0 ! 1) ! 0 ! 0 = 15 / 2"
    by simp
  with h1 h3 h4 h5 h6 h7 e show ?thesis by blast
qed

text \<open>
  C2. For an algorithm constructed for the equation named \<^verbatim>\<open>pressure\<close>, the constructor
  does not depend on the solution options (the configured relaxation factor is not read:
  replacing the options by any others gives the same object), and in every batch and
  lane the LHS handed to \<^verbatim>\<open>apply_coeff\<close> is the extracted LHS, so in particular its
  diagonal is the extracted diagonal. The loop over the diagonal still runs; it divides
  by the member's initial value 1.
\<close>

theorem pressure_unrelaxed:
  assumes "dofName eqSystem = ''pressure''"
    and "alg = (AssembleElemSolverAlgorithm_new realm eqSystem er n il)\<lparr>activeKernels := ks\<rparr>"
    and "b < length batches" and "i < numSimdElems (batches ! b)"
  shows "(AssembleElemSolverAlgorithm_new (realm\<lparr>solutionOptions := opts\<rparr>) eqSystem er n il
            :: ('ti, 'pre) AssembleElemSolverAlgorithm)
           = AssembleElemSolverAlgorithm_new realm eqSystem er n il
       \<and> ac_lhs (snd (execute alg ti batches) ! b ! i) =
           extracted_lhs (kernels_setup alg ti) (batches ! b) i"
proof -
  have f: "diagRelaxFactor alg = 1"
    using assms(1,2) by (simp add: AssembleElemSolverAlgorithm_new_def diagRelaxFactor_default_def)
  have "ac_lhs (snd (execute alg ti batches) ! b ! i) =
          extracted_lhs (kernels_setup alg ti) (batches ! b) i"
    using assms(3,4) by (simp add: execute_nth batch_lambda_nth f)
  moreover have "(AssembleElemSolverAlgorithm_new (realm\<lparr>solutionOptions := opts\<rparr>) eqSystem er n il
            :: ('ti, 'pre) AssembleElemSolverAlgorithm)
           = AssembleElemSolverAlgorithm_new realm eqSystem er n il"
    using assms(1) by (simp add: AssembleElemSolverAlgorithm_new_def)
  ultimately show ?thesis by simp
qed

theorem pressure_unrelaxed_witness:
  "dofName (example_eqSystem ''pressure'') = ''pressure''
   \<and> (0::nat) < length [example_batch] \<and> (1::nat) < numSimdElems ([example_batch] ! 0)
   \<and> (AssembleElemSolverAlgorithm_new
          ((example_realm (7 / 10))\<lparr>solutionOptions := \<lparr>get_relaxation_factor = (\<lambda>_. 1 / 2)\<rparr>\<rparr>)
          (example_eqSystem ''pressure'') 3 2 True
          :: (real, DoubleType list list) AssembleElemSolverAlgorithm)
       = AssembleElemSolverAlgorithm_new (example_realm (7 / 10)) (example_eqSystem ''pressure'') 3 2 True
   \<and> ac_lhs (snd (execute
         ((AssembleElemSolverAlgorithm_new (example_realm (7 / 10)) (example_eqSystem ''pressure'')
             3 2 True)\<lparr>activeKernels := [example_kernel 0]\<rparr>) 3 [example_batch]) ! 0 ! 1)
       = [[15, 18], [21, 24]]"
proof -
  let ?alg = "(AssembleElemSolverAlgorithm_new (example_realm (7 / 10)) (example_eqSystem ''pressure'')
             3 2 True)\<lparr>activeKernels := [example_kernel 0]\<rparr>"
  have e: "extracted_lhs (kernels_setup ?alg 3) ([example_batch] ! 0) 1 = [[15, 18], [21, 24]]"
    by (simp add: example_defs)
  have h1: "dofName (example_eqSystem ''pressure'') = ''pressure''"
    by (simp add: example_eqSystem_def)
  have h3: "(0::nat) < length [example_batch]" by simp
  have h4: "(1::nat) < numSimdElems ([example_batch] ! 0)" by (simp add: example_batch_def)
  show ?thesis
    using pressure_unrelaxed [OF h1 refl h3 h4,
        where ?'ti = real and ?'pre = "DoubleType list list"
          and opts = "\<lparr>get_relaxation_factor = (\<lambda>_. 1 / 2)\<rparr>" and ti = 3
          and realm = "example_realm (7 / 10)" and er = 3 and n = 2 and il = True
          and ks = "[example_kernel 0]"]
    unfolding e using h1 h3 h4 by blast
qed

text \<open>
  C10. For an algorithm made by the constructor (with any kernels registered afterwards),
  in every batch and lane: the RHS handed to \<^verbatim>\<open>apply_coeff\<close> is the extracted RHS; the LHS
  has the shape of the extracted LHS; and every LHS entry other than a diagonal entry
  \<open>(ir, ir)\<close> with \<open>ir < nodesPerEntity * numDof\<close> is the extracted entry.
\<close>

theorem relaxation_frame:
  assumes "alg = (AssembleElemSolverAlgorithm_new realm eqSystem er n il)\<lparr>activeKernels := ks\<rparr>"
    and "b < length batches" and "i < numSimdElems (batches ! b)"
  shows "ac_rhs (snd (execute alg ti batches) ! b ! i) =
           extracted_rhs (kernels_setup alg ti) (batches ! b) i
       \<and> length (ac_lhs (snd (execute alg ti batches) ! b ! i)) =
           length (extracted_lhs (kernels_setup alg ti) (batches ! b) i)
       \<and> (\<forall>r. length (ac_lhs (snd (execute alg ti batches) ! b ! i) ! r) =
                length (extracted_lhs (kernels_setup alg ti) (batches ! b) i ! r))
       \<and> (\<forall>r c. \<not> (r = c \<and> r < n * numDof (linsys eqSystem)) \<longrightarrow>
                ac_lhs (snd (execute alg ti batches) ! b ! i) ! r ! c =
                  extracted_lhs (kernels_setup alg ti) (batches ! b) i ! r ! c)"
proof -
  have sz: "rhsSize alg = n * numDof (linsys eqSystem)"
    using assms(1) by (simp add: AssembleElemSolverAlgorithm_new_def)
  have call: "snd (execute alg ti batches) ! b ! i =
      \<lparr> ac_numEntities = nodesPerEntity alg,
        ac_entities = ngpElemNodes (batches ! b) ! i,
        ac_rhs = extracted_rhs (kernels_setup alg ti) (batches ! b) i,
        ac_lhs = relax_diagonal (rhsSize alg) (diagRelaxFactor alg)
                   (extracted_lhs (kernels_setup alg ti) (batches ! b) i) \<rparr>"
    using assms(2,3) by (simp add: execute_nth batch_lambda_nth)
  show ?thesis
    unfolding call by (simp add: relax_diagonal_other sz)
qed

theorem relaxation_frame_witness:
  "(0::nat) < length [example_batch] \<and> (1::nat) < numSimdElems ([example_batch] ! 0)
   \<and> ac_rhs (snd (execute
         ((AssembleElemSolverAlgorithm_new (example_realm 2) (example_eqSystem ''velocity'')
             3 2 True)\<lparr>activeKernels := [example_kernel 0]\<rparr>) 3 [example_batch]) ! 0 ! 1)
       = [3, 3]
   \<and> ac_lhs (snd (execute
         ((AssembleElemSolverAlgorithm_new (example_realm 2) (example_eqSystem ''velocity'')
             3 2 True)\<lparr>activeKernels := [example_kernel 0]\<rparr>) 3 [example_batch]) ! 0 ! 1) ! 0 ! 1
       = 18"
proof -
  let ?alg = "(AssembleElemSolverAlgorithm_new (example_realm 2) (example_eqSystem ''velocity'')
             3 2 True)\<lparr>activeKernels := [example_kernel 0]\<rparr>"
  have el: "extracted_lhs (kernels_setup ?alg 3) ([example_batch] ! 0) 1 = [[15, 18], [21, 24]]"
    by (simp add: example_defs)
  have er: "extracted_rhs (kernels_setup ?alg 3) ([example_batch] ! 0) 1 = [3, 3]"
    by (simp add: example_defs)
  have h2: "(0::nat) < length [example_batch]" by simp
  have h3: "(1::nat) < numSimdElems ([example_batch] ! 0)" by (simp add: example_batch_def)
  note fr = relaxation_frame [OF refl h2 h3,
        where ti = 3
          and realm = "example_realm 2" and eqSystem = "example_eqSystem ''velocity''"
          and er = 3 and n = 2 and il = True and ks = "[example_kernel 0]"]
  have r: "ac_rhs (snd (execute ?alg 3 [example_batch]) ! 0 ! 1) = [3, 3]"
    using fr unfolding er by (rule conjunct1)
  have "\<forall>r c. \<not> (r = c \<and> r < 2 * numDof (linsys (example_eqSystem ''velocity''))) \<longrightarrow>
           ac_lhs (snd (execute ?alg 3 [example_batch]) ! 0 ! 1) ! r ! c = [[15, 18], [21, 24]] ! r ! c"
    using fr unfolding el by blast
  then have "\<not> ((0::nat) = 1 \<and> (0::nat) < 2 * numDof (linsys (example_eqSystem ''velocity''))) \<longrightarrow>
           ac_lhs (snd (execute ?alg 3 [example_batch]) ! 0 ! 1) ! 0 ! 1 = [[15, 18], [21, 24]] ! 0 ! 1"
    by blast
  then have "ac_lhs (snd (execute ?alg 3 [example_batch]) ! 0 ! 1) ! 0 ! 1 = 18"
    by simp
  with r h2 h3 show ?thesis by blast
qed

section \<open>Properties of element descriptions\<close>

lemma set_index_tuples: "set (index_tuples d m) = {idx. length idx = d \<and> (\<forall>i \<in> set idx. i < m)}"
  by (auto simp: index_tuples_def set_n_lists)

lemma index_tuples_2: "idx \<in> set (index_tuples 2 m) \<longleftrightarrow> (\<exists>i<m. \<exists>j<m. idx = [i, j])"
proof
  assume "idx \<in> set (index_tuples 2 m)"
  then have l: "length idx = 2" and b: "\<forall>i \<in> set idx. i < m"
    by (simp_all add: set_index_tuples)
  from l obtain i j where "idx = [i, j]"
    by (auto simp: numeral_2_eq_2 length_Suc_conv)
  with b show "\<exists>i<m. \<exists>j<m. idx = [i, j]" by simp
next
  assume "\<exists>i<m. \<exists>j<m. idx = [i, j]"
  then show "idx \<in> set (index_tuples 2 m)" by (auto simp: set_index_tuples)
qed

lemma index_tuples_3:
  "idx \<in> set (index_tuples 3 m) \<longleftrightarrow> (\<exists>i<m. \<exists>j<m. \<exists>k<m. idx = [i, j, k])"
proof
  assume "idx \<in> set (index_tuples 3 m)"
  then have l: "length idx = 3" and b: "\<forall>i \<in> set idx. i < m"
    by (simp_all add: set_index_tuples)
  from l obtain i j k where "idx = [i, j, k]"
    by (auto simp: numeral_3_eq_3 length_Suc_conv)
  with b show "\<exists>i<m. \<exists>j<m. \<exists>k<m. idx = [i, j, k]" by simp
next
  assume "\<exists>i<m. \<exists>j<m. \<exists>k<m. idx = [i, j, k]"
  then show "idx \<in> set (index_tuples 3 m)" by (auto simp: set_index_tuples)
qed

lemma row_major_2:
  fixes m :: nat
  assumes "i < m" "j < m"
  shows "i + m * j < m ^ 2" "(i + m * j) mod m = i" "(i + m * j) div m = j"
proof -
  have "i + m * j < m + m * j" using assms by simp
  also have "\<dots> = m * Suc j" by simp
  also have "\<dots> \<le> m * m" using assms by (intro mult_le_mono2) simp
  finally show "i + m * j < m ^ 2" by (simp add: power2_eq_square)
  show "(i + m * j) mod m = i" using assms by simp
  show "(i + m * j) div m = j" using assms by simp
qed

lemma row_major_3:
  fixes m :: nat
  assumes "i < m" "j < m" "k < m"
  shows "i + m * (j + m * k) < m ^ 3" "(i + m * (j + m * k)) mod m = i"
    "((i + m * (j + m * k)) div m) mod m = j" "(i + m * (j + m * k)) div (m * m) = k"
proof -
  have jk: "j + m * k < m ^ 2" "(j + m * k) mod m = j" "(j + m * k) div m = k"
    using row_major_2 [OF assms(2,3)] by simp_all
  have "i + m * (j + m * k) < m + m * (j + m * k)" using assms by simp
  also have "\<dots> = m * Suc (j + m * k)" by simp
  also have "\<dots> \<le> m * m ^ 2" using jk(1) by (intro mult_le_mono2) simp
  finally show "i + m * (j + m * k) < m ^ 3" by (simp add: power3_eq_cube power2_eq_square)
  show "(i + m * (j + m * k)) mod m = i" using assms by simp
  have d: "(i + m * (j + m * k)) div m = j + m * k" using assms by simp
  show "((i + m * (j + m * k)) div m) mod m = j" using jk by (simp add: d)
  show "(i + m * (j + m * k)) div (m * m) = k"
    using jk by (simp add: div_mult2_eq d)
qed

lemma row_major_inverse_2:
  fixes m :: nat
  assumes "n < m ^ 2"
  shows "n mod m < m" "n div m < m" "n mod m + m * (n div m) = n"
proof -
  have m: "0 < m" using assms by (cases m) simp_all
  then show "n mod m < m" by simp
  show "n div m < m" using assms m by (simp add: power2_eq_square less_mult_imp_div_less)
  show "n mod m + m * (n div m) = n" by simp
qed

lemma row_major_inverse_3:
  fixes m :: nat
  assumes "n < m ^ 3"
  shows "n mod m < m" "(n div m) mod m < m" "n div (m * m) < m"
    "n mod m + m * ((n div m) mod m + m * (n div (m * m))) = n"
proof -
  have m: "0 < m" using assms by (cases m) simp_all
  then show "n mod m < m" "(n div m) mod m < m" by simp_all
  have "n < m * (m * m)" using assms by (simp add: power3_eq_cube mult.assoc)
  then show "n div (m * m) < m" using m by (simp add: less_mult_imp_div_less mult.commute)
  show "n mod m + m * ((n div m) mod m + m * (n div (m * m))) = n"
    by (simp add: div_mult2_eq)
qed

lemma create_Inr:
  assumes "create locs d p = Inr desc"
  shows "1 \<le> p" "d = 2 \<or> d = 3"
    "desc = \<lparr> dimension = nat d, polyOrder = nat p, nodes1D = nat p + 1,
              nodesPerElement = (nat p + 1) ^ nat d, nodeLocs1D = locs (nat p),
              node_map = (\<lambda>idx. if d = 2 then idx ! 0 + (nat p + 1) * idx ! 1
                                else idx ! 0 + (nat p + 1) * (idx ! 1 + (nat p + 1) * idx ! 2)),
              inverseNodeMap =
                (if d = 2 then map (\<lambda>n. [n mod (nat p + 1), n div (nat p + 1)]) [0..<(nat p + 1) ^ 2]
                 else map (\<lambda>n. [n mod (nat p + 1), (n div (nat p + 1)) mod (nat p + 1),
                                   n div ((nat p + 1) * (nat p + 1))]) [0..<(nat p + 1) ^ 3]) \<rparr>"
  using assms by (auto simp: create_def Let_def split: if_splits)

lemma create_invariant:
  assumes "create locs d p = Inr desc"
    and "length (locs (nat p)) = nat p + 1" and "sorted_wrt (<) (locs (nat p))"
    and "\<forall>x \<in> set (locs (nat p)). - 1 \<le> x \<and> x \<le> 1"
  shows "description_invariant desc"
proof -
  define m where "m = nat p + 1"
  note c = create_Inr [OF assms(1), folded m_def]
  note l = assms(2) [folded m_def]
  have m1: "Suc (nat p) = m" by (simp add: m_def)
  from c(2) show ?thesis
  proof
    assume d: "d = 2"
    show ?thesis
      unfolding description_invariant_def c(3)
      using l assms(3,4) d
      by (auto simp: index_tuples_2 row_major_2 row_major_inverse_2 m1)
  next
    assume d: "d = 3"
    show ?thesis
      unfolding description_invariant_def c(3)
      using l assms(3,4) d
      by (auto simp: index_tuples_3 row_major_3 row_major_inverse_3 m1)
  qed
qed

section \<open>Properties of polynomial functions\<close>

lemma polyfnI: "(\<And>x. f x = (\<Sum>i\<le>n. c i * x ^ i)) \<Longrightarrow> polyfn n f"
  unfolding polyfn_def by (rule exI [of _ c]) simp

lemma polyfn_const: "polyfn n (\<lambda>x. k)"
proof (rule polyfnI [where c = "\<lambda>i. if i = 0 then k else 0"])
  fix x :: real
  have "(\<Sum>i\<le>n. (if i = 0 then k else 0) * x ^ i) = (\<Sum>i\<le>n. if i = 0 then k else 0)"
    by (rule sum.cong) simp_all
  then show "k = (\<Sum>i\<le>n. (if i = 0 then k else 0) * x ^ i)"
    by (simp add: sum.delta')
qed

lemma polyfn_add: "polyfn n f \<Longrightarrow> polyfn n g \<Longrightarrow> polyfn n (\<lambda>x. f x + g x)"
proof -
  assume "polyfn n f" "polyfn n g"
  then obtain c d where c: "\<forall>x. f x = (\<Sum>i\<le>n. c i * x ^ i)" and d: "\<forall>x. g x = (\<Sum>i\<le>n. d i * x ^ i)"
    unfolding polyfn_def by blast
  have "f x + g x = (\<Sum>i\<le>n. (c i + d i) * x ^ i)" for x
    by (simp add: c d sum.distrib distrib_right)
  then show ?thesis by (rule polyfnI [where c = "\<lambda>i. c i + d i"])
qed

lemma polyfn_cmult: "polyfn n f \<Longrightarrow> polyfn n (\<lambda>x. k * f x)"
proof -
  assume "polyfn n f"
  then obtain c where c: "\<forall>x. f x = (\<Sum>i\<le>n. c i * x ^ i)"
    unfolding polyfn_def by blast
  have "k * f x = (\<Sum>i\<le>n. (k * c i) * x ^ i)" for x
    by (simp add: c sum_distrib_left mult.assoc)
  then show ?thesis by (rule polyfnI [where c = "\<lambda>i. k * c i"])
qed

lemma polyfn_diff: "polyfn n f \<Longrightarrow> polyfn n g \<Longrightarrow> polyfn n (\<lambda>x. f x - g x)"
  using polyfn_add [of n f "\<lambda>x. - 1 * g x"] polyfn_cmult [of n g "- 1"] by simp

lemma polyfn_linear: "polyfn n f \<Longrightarrow> polyfn (Suc n) (\<lambda>x. (x - a) * f x)"
proof -
  assume "polyfn n f"
  then obtain c where c: "\<forall>x. f x = (\<Sum>i\<le>n. c i * x ^ i)"
    unfolding polyfn_def by blast
  define c' where "c' i = (if i = 0 then 0 else c (i - 1)) - a * (if i \<le> n then c i else 0)" for i
  have "(x - a) * f x = (\<Sum>i\<le>Suc n. c' i * x ^ i)" for x
  proof -
    have 1: "(\<Sum>i\<le>Suc n. (if i = 0 then 0 else c (i - 1)) * x ^ i) = x * (\<Sum>i\<le>n. c i * x ^ i)"
      by (simp add: sum.atMost_Suc_shift sum_distrib_left mult_ac del: sum.atMost_Suc)
    have 2: "(\<Sum>i\<le>Suc n. (if i \<le> n then c i else 0) * x ^ i) = (\<Sum>i\<le>n. c i * x ^ i)"
      by simp
    have "(\<Sum>i\<le>Suc n. c' i * x ^ i) =
            (\<Sum>i\<le>Suc n. (if i = 0 then 0 else c (i - 1)) * x ^ i)
            - a * (\<Sum>i\<le>Suc n. (if i \<le> n then c i else 0) * x ^ i)"
      unfolding c'_def by (simp only: left_diff_distrib sum_subtractf sum_distrib_left mult.assoc)
    also have "\<dots> = (x - a) * f x"
      unfolding 1 2 by (simp add: c left_diff_distrib)
    finally show ?thesis by simp
  qed
  then show ?thesis by (rule polyfnI [where c = c'])
qed

lemma polyfn_sum_list:
  "(\<And>i. i \<in> set is \<Longrightarrow> polyfn n (f i)) \<Longrightarrow> polyfn n (\<lambda>x. sum_list (map (\<lambda>i. f i x) is))"
proof (induction "is")
  case Nil
  then show ?case by (simp add: polyfn_const)
next
  case (Cons i "is")
  then show ?case by (simp add: polyfn_add)
qed

lemma polyfn_roots:
  assumes "polyfn n f" and "finite S" and "n < card S" and "\<forall>x \<in> S. f x = 0"
  shows "f x = 0"
proof -
  obtain c where c: "\<forall>x. f x = (\<Sum>i\<le>n. c i * x ^ i)"
    using assms(1) unfolding polyfn_def by blast
  have "c k = 0" if "k \<le> n" for k
  proof (rule ccontr)
    assume "c k \<noteq> 0"
    from polyfun_rootbound [of c k n, OF this that]
    have fin: "finite {z. (\<Sum>i\<le>n. c i * z ^ i) = 0}" and card: "card {z. (\<Sum>i\<le>n. c i * z ^ i) = 0} \<le> n"
      by simp_all
    have "S \<subseteq> {z. (\<Sum>i\<le>n. c i * z ^ i) = 0}" using assms(4) c by auto
    then have "card S \<le> card {z. (\<Sum>i\<le>n. c i * z ^ i) = 0}" using fin by (rule card_mono [rotated])
    with card assms(3) show False by simp
  qed
  then show ?thesis by (simp add: c)
qed

section \<open>The 1-D Lagrange basis\<close>

lemma polyfn_prod_list: "polyfn (length js) (\<lambda>x. prod_list (map (\<lambda>j. (x - a j) / c j) js))"
proof (induction js)
  case Nil
  show ?case by (simp add: polyfn_const)
next
  case (Cons j js)
  have "polyfn (Suc (length js))
          (\<lambda>x. (x - a j) * (1 / c j * prod_list (map (\<lambda>j. (x - a j) / c j) js)))"
    by (intro polyfn_linear polyfn_cmult Cons.IH)
  then show ?case by (simp add: mult_ac)
qed

lemma sum_list_upt_conv: "sum_list (map f [0..<n]) = (\<Sum>i<n. f i)"
  by (simp add: interv_sum_list_conv_sum_set_nat atLeast0LessThan)

lemma polyfn_poly_val:
  assumes "length coeffs \<le> Suc n"
  shows "polyfn n (poly_val coeffs)"
proof (rule polyfnI [where c = "\<lambda>i. if i < length coeffs then coeffs ! i else 0"])
  fix x :: real
  have "(\<Sum>i\<le>n. (if i < length coeffs then coeffs ! i else 0) * x ^ i) =
        (\<Sum>i\<in>{..<length coeffs}. coeffs ! i * x ^ i)"
    using assms by (intro sum.mono_neutral_cong_right) auto
  then show "poly_val coeffs x = (\<Sum>i\<le>n. (if i < length coeffs then coeffs ! i else 0) * x ^ i)"
    by (simp add: poly_val_def sum_list_upt_conv)
qed

lemma length_filter_neq_upt: "i < n \<Longrightarrow> length (filter (\<lambda>j. j \<noteq> i) [0..<n]) = n - 1"
proof -
  assume i: "i < n"
  have "distinct (filter (\<lambda>j. j \<noteq> i) [0..<n])" by simp
  then have "length (filter (\<lambda>j. j \<noteq> i) [0..<n]) = card (set (filter (\<lambda>j. j \<noteq> i) [0..<n]))"
    by (rule distinct_card [symmetric])
  also have "set (filter (\<lambda>j. j \<noteq> i) [0..<n]) = {0..<n} - {i}" by auto
  also have "card ({0..<n} - {i}) = n - 1" using i by simp
  finally show ?thesis .
qed

lemma prod_list_all_one: "(\<And>x. x \<in> set xs \<Longrightarrow> f x = (1::real)) \<Longrightarrow> prod_list (map f xs) = 1"
  by (induction xs) simp_all

lemma interpolation_weight_node:
  assumes "distinct (nodeLocs b)" and "length (nodeLocs b) = numNodes1D b"
    and "i < numNodes1D b" and "k < numNodes1D b"
  shows "interpolation_weight b (nodeLocs b ! k) i = (if i = k then 1 else 0)"
proof (cases "i = k")
  case True
  have "(nodeLocs b ! i - nodeLocs b ! j) / (nodeLocs b ! i - nodeLocs b ! j) = 1"
    if "j \<in> set (filter (\<lambda>j. j \<noteq> i) [0..<numNodes1D b])" for j
  proof -
    from that have "j < numNodes1D b" "j \<noteq> i" by simp_all
    then have "nodeLocs b ! i \<noteq> nodeLocs b ! j"
      using assms(1,2,3) by (simp add: nth_eq_iff_index_eq)
    then show ?thesis by simp
  qed
  then have "prod_list (map (\<lambda>j. (nodeLocs b ! i - nodeLocs b ! j) / (nodeLocs b ! i - nodeLocs b ! j))
                    (filter (\<lambda>j. j \<noteq> i) [0..<numNodes1D b])) = 1"
    by (rule prod_list_all_one)
  then show ?thesis
    using True by (simp add: interpolation_weight_def)
next
  case False
  have "k \<in> set (filter (\<lambda>j. j \<noteq> i) [0..<numNodes1D b])"
    using False assms(4) by simp
  then have "(0::real) \<in> set (map (\<lambda>j. (nodeLocs b ! k - nodeLocs b ! j) / (nodeLocs b ! i - nodeLocs b ! j))
                    (filter (\<lambda>j. j \<noteq> i) [0..<numNodes1D b]))"
    by (force simp: image_iff)
  then show ?thesis
    using False by (simp add: interpolation_weight_def prod_list_zero_iff)
qed

lemma polyfn_interpolation_weight:
  assumes "i < numNodes1D b"
  shows "polyfn (numNodes1D b - 1) (\<lambda>x. interpolation_weight b x i)"
  using polyfn_prod_list [of "filter (\<lambda>j. j \<noteq> i) [0..<numNodes1D b]" "\<lambda>j. nodeLocs b ! j"
      "\<lambda>j. nodeLocs b ! i - nodeLocs b ! j"] assms
  by (simp add: length_filter_neq_upt interpolation_weight_def)

lemma lagrange_interpolation_1d:
  assumes "distinct (nodeLocs b)" and "length (nodeLocs b) = numNodes1D b"
    and "length coeffs \<le> numNodes1D b"
  shows "(\<Sum>i<numNodes1D b. interpolation_weight b x i * poly_val coeffs (nodeLocs b ! i))
           = poly_val coeffs x"
proof (cases "numNodes1D b")
  case 0
  then show ?thesis using assms(3) by (simp add: poly_val_def)
next
  case (Suc m)
  define g where "g x = (\<Sum>i<numNodes1D b. interpolation_weight b x i * poly_val coeffs (nodeLocs b ! i))
                           - poly_val coeffs x" for x
  have "polyfn m (\<lambda>x. sum_list (map (\<lambda>i. poly_val coeffs (nodeLocs b ! i) * interpolation_weight b x i)
                                     [0..<numNodes1D b]))"
  proof (rule polyfn_sum_list)
    fix i assume "i \<in> set [0..<numNodes1D b]"
    then have "i < numNodes1D b" by simp
    from polyfn_interpolation_weight [OF this]
    show "polyfn m (\<lambda>x. poly_val coeffs (nodeLocs b ! i) * interpolation_weight b x i)"
      by (simp add: Suc polyfn_cmult)
  qed
  moreover have "polyfn m (poly_val coeffs)"
    using assms(3) by (simp add: polyfn_poly_val Suc)
  ultimately have pg: "polyfn m g"
    unfolding g_def by (simp add: sum_list_upt_conv polyfn_diff mult.commute)
  have roots: "\<forall>x \<in> set (nodeLocs b). g x = 0"
  proof
    fix x assume "x \<in> set (nodeLocs b)"
    then obtain k where k: "k < numNodes1D b" and x: "x = nodeLocs b ! k"
      using assms(2) by (auto simp: in_set_conv_nth)
    have "(\<Sum>i<numNodes1D b. interpolation_weight b x i * poly_val coeffs (nodeLocs b ! i)) =
          (\<Sum>i<numNodes1D b. if i = k then poly_val coeffs (nodeLocs b ! i) else 0)"
      by (rule sum.cong) (simp_all add: x interpolation_weight_node [OF assms(1,2) _ k])
    also have "\<dots> = poly_val coeffs x"
      using k by (simp add: x)
    finally show "g x = 0" by (simp add: g_def)
  qed
  have "card (set (nodeLocs b)) = Suc m"
    using assms(1,2) Suc by (simp add: distinct_card)
  then have "m < card (set (nodeLocs b))" by simp
  from polyfn_roots [OF pg _ this roots] have "g x = 0" by simp
  then show ?thesis by (simp add: g_def)
qed

lemma DERIV_prod_list_linear:
  assumes "distinct js"
  shows "((\<lambda>x. prod_list (map (\<lambda>j. (x - a j) / c j) js)) has_real_derivative
           sum_list (map (\<lambda>k. 1 / c k * prod_list (map (\<lambda>j. (x - a j) / c j) (filter (\<lambda>j. j \<noteq> k) js))) js))
         (at x)"
  using assms
proof (induction js)
  case Nil
  show ?case by simp
next
  case (Cons j js)
  let ?P = "\<lambda>js x. prod_list (map (\<lambda>j. (x - a j) / c j) js)"
  let ?D = "sum_list (map (\<lambda>k. 1 / c k * ?P (filter (\<lambda>j. j \<noteq> k) js) x) js)"
  define r where "r = 1 / c j"
  have r: "(y - a j) / c j = r * (y - a j)" for y by (simp add: r_def)
  from Cons.prems have j: "j \<notin> set js" and d: "distinct js" by simp_all
  have ih: "(?P js has_real_derivative ?D) (at x)" by (rule Cons.IH [OF d])
  have "((\<lambda>x. (x - a j) * ?P js x) has_real_derivative (?P js x + (x - a j) * ?D)) (at x)"
    by (auto intro!: derivative_eq_intros ih)
  then have "((\<lambda>x. r * ((x - a j) * ?P js x)) has_real_derivative
                r * (?P js x + (x - a j) * ?D)) (at x)"
    by (rule DERIV_cmult)
  then have 1: "(?P (j # js) has_real_derivative r * ?P js x + r * (x - a j) * ?D) (at x)"
    by (simp add: r algebra_simps)
  have 2: "filter (\<lambda>i. i \<noteq> j) js = js"
    using j by (induction js) auto
  have 3: "sum_list (map (\<lambda>k. 1 / c k * ?P (filter (\<lambda>i. i \<noteq> k) (j # js)) x) js) =
        r * (x - a j) * ?D"
  proof -
    have "map (\<lambda>k. 1 / c k * ?P (filter (\<lambda>i. i \<noteq> k) (j # js)) x) js =
          map (\<lambda>k. r * (x - a j) * (1 / c k * ?P (filter (\<lambda>i. i \<noteq> k) js) x)) js"
      using j by (intro map_cong) (auto simp: r)
    then show ?thesis by (simp only: sum_list_const_mult)
  qed
  have "sum_list (map (\<lambda>k. 1 / c k * ?P (filter (\<lambda>i. i \<noteq> k) (j # js)) x) (j # js)) =
          r * ?P js x + r * (x - a j) * ?D"
    unfolding list.map sum_list.Cons 3 by (simp add: 2 r_def)
  with 1 show ?case by simp
qed

lemma DERIV_interpolation_weight:
  "((\<lambda>x. interpolation_weight b x i) has_real_derivative derivative_weight b x i) (at x)"
  unfolding interpolation_weight_def derivative_weight_def
  by (rule DERIV_prod_list_linear) simp

lemma DERIV_poly_val: "(poly_val coeffs has_real_derivative poly_der coeffs x) (at x)"
proof -
  have "((\<lambda>x. \<Sum>j<length coeffs. coeffs ! j * x ^ j) has_real_derivative
          (\<Sum>j<length coeffs. coeffs ! j * (real j * x ^ (j - 1)))) (at x)"
    by (auto intro!: derivative_eq_intros simp: mult_ac)
  moreover have "(\<Sum>j<length coeffs. coeffs ! j * (real j * x ^ (j - 1))) =
                 (\<Sum>j\<in>{1..<length coeffs}. coeffs ! j * x ^ (j - 1) * real j)"
    by (intro sum.mono_neutral_cong_right) auto
  moreover have "poly_val coeffs = (\<lambda>x. \<Sum>j<length coeffs. coeffs ! j * x ^ j)"
    by (rule ext) (simp add: poly_val_def sum_list_upt_conv)
  ultimately show ?thesis
    by (simp add: poly_der_def interv_sum_list_conv_sum_set_nat)
qed

lemma lagrange_derivative_1d:
  assumes "distinct (nodeLocs b)" and "length (nodeLocs b) = numNodes1D b"
    and "length coeffs \<le> numNodes1D b"
  shows "(\<Sum>i<numNodes1D b. derivative_weight b x i * poly_val coeffs (nodeLocs b ! i))
           = poly_der coeffs x"
proof -
  have "((\<lambda>x. \<Sum>i<numNodes1D b. interpolation_weight b x i * poly_val coeffs (nodeLocs b ! i))
          has_real_derivative
          (\<Sum>i<numNodes1D b. derivative_weight b x i * poly_val coeffs (nodeLocs b ! i))) (at x)"
    by (auto intro!: derivative_eq_intros DERIV_interpolation_weight)
  moreover have "(\<lambda>x. \<Sum>i<numNodes1D b. interpolation_weight b x i * poly_val coeffs (nodeLocs b ! i))
                  = poly_val coeffs"
    by (rule ext) (rule lagrange_interpolation_1d [OF assms])
  ultimately have "(poly_val coeffs has_real_derivative
          (\<Sum>i<numNodes1D b. derivative_weight b x i * poly_val coeffs (nodeLocs b ! i))) (at x)"
    by simp
  then show ?thesis
    using DERIV_poly_val by (rule DERIV_unique)
qed

section \<open>Layout of the weight vectors\<close>

lemma length_concat_uniform:
  "(\<And>i. i < k \<Longrightarrow> length (f i) = m) \<Longrightarrow> length (concat (map f [0..<k])) = k * m"
  by (induction k) simp_all

lemma nth_concat_uniform:
  assumes "\<And>i. i < k \<Longrightarrow> length (f i) = m" and "i < k" and "j < m"
  shows "concat (map f [0..<k]) ! (i * m + j) = f i ! j"
  using assms
proof (induction k)
  case 0
  then show ?case by simp
next
  case (Suc k)
  have len: "length (concat (map f [0..<k])) = k * m"
    using Suc.prems(1) by (intro length_concat_uniform) simp
  show ?case
  proof (cases "i < k")
    case True
    have "i * m + j < Suc i * m" using Suc.prems(3) by simp
    also have "\<dots> \<le> k * m" using True by (intro mult_le_mono1) simp
    finally have "i * m + j < k * m" .
    moreover have "concat (map f [0..<k]) ! (i * m + j) = f i ! j"
      using Suc.prems True by (intro Suc.IH) simp_all
    ultimately show ?thesis by (simp add: nth_append len)
  next
    case False
    with Suc.prems(2) have "i = k" by simp
    then show ?thesis by (simp add: nth_append len)
  qed
qed

lemma eval_basis_weights_nth:
  assumes "ip < length intgLoc div basisDim b" and "n < numNodes b"
  shows "eval_basis_weights b intgLoc ! (ip * numNodes b + n) =
           tensor_lagrange_interpolant b (eval_point b intgLoc ip) (indicesMap b ! n)"
proof -
  let ?row = "\<lambda>ip. map (\<lambda>n. tensor_lagrange_interpolant b (eval_point b intgLoc ip)
                                   (indicesMap b ! n)) [0..<numNodes b]"
  have "concat (map ?row [0..<length intgLoc div basisDim b]) ! (ip * numNodes b + n) = ?row ip ! n"
    using assms by (intro nth_concat_uniform) simp_all
  then show ?thesis using assms(2) by (simp add: eval_basis_weights_def)
qed

lemma eval_deriv_weights_nth:
  assumes "ip < length intgLoc div basisDim b" and "n < numNodes b" and "d < basisDim b"
  shows "eval_deriv_weights b intgLoc ! ((ip * numNodes b + n) * basisDim b + d) =
           tensor_lagrange_derivative b (eval_point b intgLoc ip) (indicesMap b ! n) d"
proof -
  let ?cell = "\<lambda>ip n. map (\<lambda>d. tensor_lagrange_derivative b
                 (eval_point b intgLoc ip) (indicesMap b ! n) d) [0..<basisDim b]"
  let ?row = "\<lambda>ip. concat (map (?cell ip) [0..<numNodes b])"
  have idx: "(ip * numNodes b + n) * basisDim b + d = ip * (numNodes b * basisDim b) + (n * basisDim b + d)"
    by (simp add: algebra_simps)
  have "n * basisDim b + d < Suc n * basisDim b" using assms(3) by simp
  also have "\<dots> \<le> numNodes b * basisDim b" using assms(2) by (intro mult_le_mono1) simp
  finally have lt: "n * basisDim b + d < numNodes b * basisDim b" .
  have row: "length (?row ip) = numNodes b * basisDim b" for ip
    by (intro length_concat_uniform) simp
  have "concat (map ?row [0..<length intgLoc div basisDim b]) ! (ip * (numNodes b * basisDim b) + (n * basisDim b + d))
          = ?row ip ! (n * basisDim b + d)"
    using row assms(1) lt by (rule nth_concat_uniform)
  also have "\<dots> = ?cell ip n ! d"
    using assms(2,3) by (intro nth_concat_uniform) simp_all
  also have "\<dots> = tensor_lagrange_derivative b (eval_point b intgLoc ip) (indicesMap b ! n) d"
    using assms(3) by simp
  finally show ?thesis by (simp only: eval_deriv_weights_def idx)
qed

lemma eval_point_nth:
  assumes "ip < length intgLoc div basisDim b" and "d < basisDim b"
  shows "eval_point b intgLoc ip ! d = intgLoc ! (ip * basisDim b + d)"
proof -
  have "Suc ip * basisDim b \<le> (length intgLoc div basisDim b) * basisDim b"
    using assms(1) by (intro mult_le_mono1) simp
  also have "\<dots> \<le> length intgLoc" by simp
  finally have "ip * basisDim b + d < length intgLoc" using assms(2) by simp
  then show ?thesis using assms(2) by (simp add: eval_point_def)
qed

lemma foldl_update_length [simp]:
  "length (foldl (\<lambda>v x. v[g x := f x]) v xs) = length v"
  by (induction xs arbitrary: v) simp_all

lemma foldl_update_nth:
  assumes "x0 \<in> set xs" and "g x0 < length v"
    and "\<And>x. x \<in> set xs \<Longrightarrow> g x = g x0 \<Longrightarrow> f x = f x0"
  shows "foldl (\<lambda>v x. v[g x := f x]) v xs ! g x0 = f x0"
  using assms
proof (induction xs rule: rev_induct)
  case Nil
  then show ?case by simp
next
  case (snoc x xs)
  show ?case
  proof (cases "g x = g x0")
    case True
    have "f x = f x0" by (rule snoc.prems(3)) (simp_all add: True)
    then show ?thesis using True snoc.prems(2) by simp
  next
    case False
    then have x0: "x0 \<in> set xs" using snoc.prems(1) by auto
    have "foldl (\<lambda>v x. v[g x := f x]) v xs ! g x0 = f x0"
    proof (rule snoc.IH [OF x0 snoc.prems(2)])
      fix y assume "y \<in> set xs" "g y = g x0"
      then show "f y = f x0" by (intro snoc.prems(3)) simp_all
    qed
    then show ?thesis using False by simp
  qed
qed

section \<open>Sums over the nodes of an element\<close>

lemma description_invariant_sizes:
  assumes "description_invariant desc"
  shows "nodes1D desc = polyOrder desc + 1"
    and "nodesPerElement desc = nodes1D desc ^ dimension desc"
    and "length (nodeLocs1D desc) = nodes1D desc"
    and "sorted_wrt (<) (nodeLocs1D desc)"
    and "length (inverseNodeMap desc) = nodesPerElement desc"
  using assms unfolding description_invariant_def by auto

lemma description_invariantD:
  assumes "description_invariant desc"
  shows "\<And>n. n < nodesPerElement desc \<Longrightarrow>
           inverseNodeMap desc ! n \<in> set (index_tuples (dimension desc) (nodes1D desc))"
    and "\<And>n. n < nodesPerElement desc \<Longrightarrow> node_map desc (inverseNodeMap desc ! n) = n"
    and "\<And>idx. idx \<in> set (index_tuples (dimension desc) (nodes1D desc)) \<Longrightarrow>
           node_map desc idx < nodesPerElement desc"
    and "\<And>idx. idx \<in> set (index_tuples (dimension desc) (nodes1D desc)) \<Longrightarrow>
           inverseNodeMap desc ! node_map desc idx = idx"
  using assms unfolding description_invariant_def by auto

lemma sum_nodes_tuples:
  assumes "description_invariant desc"
  shows "(\<Sum>n<nodesPerElement desc. F (inverseNodeMap desc ! n)) =
         (\<Sum>idx\<in>set (index_tuples (dimension desc) (nodes1D desc)). F idx)"
  by (rule sum.reindex_bij_witness [where i = "node_map desc" and j = "\<lambda>n. inverseNodeMap desc ! n"])
     (simp_all add: description_invariantD [OF assms])

lemma sum_tuples_2:
  "(\<Sum>idx\<in>set (index_tuples 2 m). F idx) = (\<Sum>i<m. \<Sum>j<m. F [i, j])"
proof -
  have "set (index_tuples 2 m) = (\<lambda>(i, j). [i, j]) ` ({..<m} \<times> {..<m})"
    by (rule set_eqI) (force simp: index_tuples_2 image_iff)
  moreover have "inj_on (\<lambda>(i, j). [i, j]) ({..<m} \<times> {..<m})"
    by (auto simp: inj_on_def)
  ultimately have "(\<Sum>idx\<in>set (index_tuples 2 m). F idx) = (\<Sum>(i, j)\<in>{..<m} \<times> {..<m}. F [i, j])"
    by (simp add: sum.reindex split_def)
  then show ?thesis by (simp add: sum.cartesian_product)
qed

lemma sum_tuples_3:
  "(\<Sum>idx\<in>set (index_tuples 3 m). F idx) = (\<Sum>i<m. \<Sum>j<m. \<Sum>k<m. F [i, j, k])"
proof -
  have "set (index_tuples 3 m) = (\<lambda>(i, j, k). [i, j, k]) ` ({..<m} \<times> {..<m} \<times> {..<m})"
    by (rule set_eqI) (force simp: index_tuples_3 image_iff)
  moreover have "inj_on (\<lambda>(i, j, k). [i, j, k]) ({..<m} \<times> {..<m} \<times> {..<m})"
    by (auto simp: inj_on_def)
  ultimately have "(\<Sum>idx\<in>set (index_tuples 3 m). F idx) =
      (\<Sum>(i, j, k)\<in>{..<m} \<times> {..<m} \<times> {..<m}. F [i, j, k])"
    by (simp add: sum.reindex split_def)
  then show ?thesis by (simp add: sum.cartesian_product)
qed

lemma set_quad_indices: "set (quad_indices m) = set (index_tuples 2 m)"
  by (rule set_eqI) (force simp: quad_indices_def index_tuples_2 image_iff)

lemma set_hex_indices: "set (hex_indices m) = set (index_tuples 3 m)"
  by (rule set_eqI) (force simp: hex_indices_def index_tuples_3 image_iff)

lemma fill_nodal_values_nth:
  assumes "description_invariant desc"
    and "set idxs = set (index_tuples (dimension desc) (nodes1D desc))"
    and "n < nodesPerElement desc"
  shows "fill_nodal_values desc f idxs ! n = f (inverseNodeMap desc ! n)"
proof -
  let ?x0 = "inverseNodeMap desc ! n"
  note D = description_invariantD [OF assms(1)]
  have x0: "?x0 \<in> set idxs" and n: "node_map desc ?x0 = n"
    using assms(3) by (simp_all add: D assms(2))
  have "foldl (\<lambda>v idx. v[node_map desc idx := f idx]) (replicate (nodesPerElement desc) 0) idxs
          ! node_map desc ?x0 = f ?x0"
  proof (rule foldl_update_nth [OF x0])
    show "node_map desc ?x0 < length (replicate (nodesPerElement desc) (0::real))"
      using assms(3) n by simp
  next
    fix idx assume "idx \<in> set idxs" and e: "node_map desc idx = node_map desc ?x0"
    then have "inverseNodeMap desc ! node_map desc idx = idx"
      using assms(2) by (intro D) simp
    then have "idx = ?x0" by (simp add: e n)
    then show "f idx = f ?x0" by simp
  qed
  then show ?thesis by (simp add: fill_nodal_values_def n)
qed

lemma basis_of_description:
  assumes "description_invariant desc"
    and "b = LagrangeBasis_new (inverseNodeMap desc) (nodeLocs1D desc)"
  shows "numNodes1D b = nodes1D desc" "numNodes b = nodesPerElement desc"
    "basisDim b = dimension desc" "nodeLocs b = nodeLocs1D desc"
    "indicesMap b = inverseNodeMap desc" "distinct (nodeLocs b)"
    "length (nodeLocs b) = numNodes1D b"
proof -
  note S = description_invariant_sizes [OF assms(1)]
  note D = description_invariantD [OF assms(1)]
  show "numNodes1D b = nodes1D desc" "numNodes b = nodesPerElement desc"
    "nodeLocs b = nodeLocs1D desc" "indicesMap b = inverseNodeMap desc"
    "length (nodeLocs b) = numNodes1D b"
    by (simp_all add: assms(2) LagrangeBasis_new_def S(3,5))
  show "distinct (nodeLocs b)"
    using S(4) by (simp add: assms(2) LagrangeBasis_new_def strict_sorted_iff)
  have pos: "0 < nodesPerElement desc" by (simp add: S(1,2))
  then obtain idx rest where ne: "inverseNodeMap desc = idx # rest"
    using S(5) by (cases "inverseNodeMap desc") auto
  have "inverseNodeMap desc ! 0 \<in> set (index_tuples (dimension desc) (nodes1D desc))"
    using pos by (rule D)
  then have "length idx = dimension desc"
    by (simp add: ne set_index_tuples)
  then show "basisDim b = dimension desc"
    by (simp add: assms(2) LagrangeBasis_new_def ne)
qed

lemma nodal_sum:
  assumes "description_invariant desc"
    and "set idxs = set (index_tuples (dimension desc) (nodes1D desc))"
  shows "(\<Sum>n<nodesPerElement desc. G (inverseNodeMap desc ! n) * fill_nodal_values desc f idxs ! n)
           = (\<Sum>idx\<in>set (index_tuples (dimension desc) (nodes1D desc)). G idx * f idx)"
proof -
  have "(\<Sum>n<nodesPerElement desc. G (inverseNodeMap desc ! n) * fill_nodal_values desc f idxs ! n)
          = (\<Sum>n<nodesPerElement desc. G (inverseNodeMap desc ! n) * f (inverseNodeMap desc ! n))"
    by (rule sum.cong) (simp_all add: fill_nodal_values_nth [OF assms])
  also have "\<dots> = (\<Sum>idx\<in>set (index_tuples (dimension desc) (nodes1D desc)). G idx * f idx)"
    by (rule sum_nodes_tuples [OF assms(1)])
  finally show ?thesis .
qed

lemma tensor_sum_2:
  fixes w0 w1 y0 y1 :: "nat \<Rightarrow> real"
  shows "(\<Sum>i<m. \<Sum>j<m. (w0 i * w1 j) * (y0 i * y1 j)) =
         (\<Sum>i<m. w0 i * y0 i) * (\<Sum>j<m. w1 j * y1 j)"
  by (simp add: sum_product mult_ac)

lemma tensor_sum_3:
  fixes w0 w1 w2 y0 y1 y2 :: "nat \<Rightarrow> real"
  shows "(\<Sum>i<m. \<Sum>j<m. \<Sum>k<m. (w0 i * w1 j * w2 k) * (y0 i * y1 j * y2 k)) =
         (\<Sum>i<m. w0 i * y0 i) * (\<Sum>j<m. w1 j * y1 j) * (\<Sum>k<m. w2 k * y2 k)"
proof -
  let ?K = "\<Sum>k<m. w2 k * y2 k"
  have inner: "(\<Sum>k<m. (w0 i * w1 j * w2 k) * (y0 i * y1 j * y2 k)) =
               (w0 i * w1 j) * (y0 i * y1 j) * ?K" for i j
    unfolding sum_distrib_left by (rule sum.cong) (simp_all add: mult_ac)
  have "(\<Sum>i<m. \<Sum>j<m. \<Sum>k<m. (w0 i * w1 j * w2 k) * (y0 i * y1 j * y2 k)) =
        (\<Sum>i<m. \<Sum>j<m. (w0 i * w1 j) * (y0 i * y1 j)) * ?K"
    unfolding inner by (simp only: sum_distrib_right)
  then show ?thesis by (simp only: tensor_sum_2)
qed

lemma tensor_weights_2:
  assumes "basisDim b = 2"
  shows "tensor_lagrange_interpolant b x [i, j] =
           interpolation_weight b (x ! 0) i * interpolation_weight b (x ! 1) j"
    and "tensor_lagrange_derivative b x [i, j] 0 =
           derivative_weight b (x ! 0) i * interpolation_weight b (x ! 1) j"
    and "tensor_lagrange_derivative b x [i, j] 1 =
           interpolation_weight b (x ! 0) i * derivative_weight b (x ! 1) j"
  by (simp_all add: tensor_lagrange_interpolant_def tensor_lagrange_derivative_def assms upt_rec)

lemma tensor_weights_3:
  assumes "basisDim b = 3"
  shows "tensor_lagrange_interpolant b x [i, j, k] =
           interpolation_weight b (x ! 0) i * interpolation_weight b (x ! 1) j
           * interpolation_weight b (x ! 2) k"
    and "tensor_lagrange_derivative b x [i, j, k] 0 =
           derivative_weight b (x ! 0) i * interpolation_weight b (x ! 1) j
           * interpolation_weight b (x ! 2) k"
    and "tensor_lagrange_derivative b x [i, j, k] 1 =
           interpolation_weight b (x ! 0) i * derivative_weight b (x ! 1) j
           * interpolation_weight b (x ! 2) k"
    and "tensor_lagrange_derivative b x [i, j, k] 2 =
           interpolation_weight b (x ! 0) i * interpolation_weight b (x ! 1) j
           * derivative_weight b (x ! 2) k"
  by (simp_all add: tensor_lagrange_interpolant_def tensor_lagrange_derivative_def assms upt_rec
        mult.assoc numeral_2_eq_2)

lemma quad_nodal_sum:
  assumes "description_invariant desc" and "dimension desc = 2"
    and "\<And>i j. G [i, j] = w0 i * w1 j"
  shows "(\<Sum>n<nodesPerElement desc. G (inverseNodeMap desc ! n) * nodal_poly_quad desc coeffsX coeffsY ! n)
       = (\<Sum>i<nodes1D desc. w0 i * poly_val coeffsX (nodeLocs1D desc ! i))
       * (\<Sum>j<nodes1D desc. w1 j * poly_val coeffsY (nodeLocs1D desc ! j))"
proof -
  let ?f = "\<lambda>idx. poly_val coeffsX (nodeLocs1D desc ! (idx ! 0))
                 * poly_val coeffsY (nodeLocs1D desc ! (idx ! 1))"
  have "(\<Sum>n<nodesPerElement desc. G (inverseNodeMap desc ! n) * nodal_poly_quad desc coeffsX coeffsY ! n)
        = (\<Sum>idx\<in>set (index_tuples (dimension desc) (nodes1D desc)). G idx * ?f idx)"
    unfolding nodal_poly_quad_def
    by (rule nodal_sum [OF assms(1)]) (simp add: set_quad_indices assms(2))
  also have "\<dots> = (\<Sum>i<nodes1D desc. \<Sum>j<nodes1D desc. G [i, j] * ?f [i, j])"
    unfolding assms(2) by (rule sum_tuples_2)
  also have "\<dots> = (\<Sum>i<nodes1D desc. \<Sum>j<nodes1D desc.
                      (w0 i * w1 j) * (poly_val coeffsX (nodeLocs1D desc ! i)
                                       * poly_val coeffsY (nodeLocs1D desc ! j)))"
    by (simp add: assms(3))
  finally show ?thesis by (simp only: tensor_sum_2)
qed

lemma hex_nodal_sum:
  assumes "description_invariant desc" and "dimension desc = 3"
    and "\<And>i j k. G [i, j, k] = w0 i * w1 j * w2 k"
  shows "(\<Sum>n<nodesPerElement desc. G (inverseNodeMap desc ! n)
             * nodal_poly_hex desc coeffsX coeffsY coeffsZ ! n)
       = (\<Sum>i<nodes1D desc. w0 i * poly_val coeffsX (nodeLocs1D desc ! i))
       * (\<Sum>j<nodes1D desc. w1 j * poly_val coeffsY (nodeLocs1D desc ! j))
       * (\<Sum>k<nodes1D desc. w2 k * poly_val coeffsZ (nodeLocs1D desc ! k))"
proof -
  let ?f = "\<lambda>idx. poly_val coeffsX (nodeLocs1D desc ! (idx ! 0))
                 * poly_val coeffsY (nodeLocs1D desc ! (idx ! 1))
                 * poly_val coeffsZ (nodeLocs1D desc ! (idx ! 2))"
  have "(\<Sum>n<nodesPerElement desc. G (inverseNodeMap desc ! n)
             * nodal_poly_hex desc coeffsX coeffsY coeffsZ ! n)
        = (\<Sum>idx\<in>set (index_tuples (dimension desc) (nodes1D desc)). G idx * ?f idx)"
    unfolding nodal_poly_hex_def
    by (rule nodal_sum [OF assms(1)]) (simp add: set_hex_indices assms(2))
  also have "\<dots> = (\<Sum>i<nodes1D desc. \<Sum>j<nodes1D desc. \<Sum>k<nodes1D desc. G [i, j, k] * ?f [i, j, k])"
    unfolding assms(2) by (rule sum_tuples_3)
  also have "\<dots> = (\<Sum>i<nodes1D desc. \<Sum>j<nodes1D desc. \<Sum>k<nodes1D desc.
                      (w0 i * w1 j * w2 k) * (poly_val coeffsX (nodeLocs1D desc ! i)
                                       * poly_val coeffsY (nodeLocs1D desc ! j)
                                       * poly_val coeffsZ (nodeLocs1D desc ! k)))"
    by (simp add: assms(3) numeral_2_eq_2)
  finally show ?thesis by (simp only: tensor_sum_3)
qed

lemma basis_1d:
  assumes "description_invariant desc"
    and "b = LagrangeBasis_new (inverseNodeMap desc) (nodeLocs1D desc)"
    and "length coeffs \<le> nodes1D desc"
  shows "(\<Sum>i<nodes1D desc. interpolation_weight b x i * poly_val coeffs (nodeLocs1D desc ! i))
           = poly_val coeffs x"
    and "(\<Sum>i<nodes1D desc. derivative_weight b x i * poly_val coeffs (nodeLocs1D desc ! i))
           = poly_der coeffs x"
proof -
  note B = basis_of_description [OF assms(1,2)]
  have c: "length coeffs \<le> numNodes1D b" using assms(3) by (simp add: B(1))
  show "(\<Sum>i<nodes1D desc. interpolation_weight b x i * poly_val coeffs (nodeLocs1D desc ! i))
           = poly_val coeffs x"
    using lagrange_interpolation_1d [OF B(6,7) c, of x] by (simp only: B(1,4))
  show "(\<Sum>i<nodes1D desc. derivative_weight b x i * poly_val coeffs (nodeLocs1D desc ! i))
           = poly_der coeffs x"
    using lagrange_derivative_1d [OF B(6,7) c, of x] by (simp only: B(1,4))
qed

lemma approx_interp_basis:
  assumes "description_invariant desc"
    and "b = LagrangeBasis_new (inverseNodeMap desc) (nodeLocs1D desc)"
    and "ip < length intgLoc div dimension desc"
  shows "approx_interp (eval_basis_weights b intgLoc) V (nodesPerElement desc) ip =
          (\<Sum>n<nodesPerElement desc.
              tensor_lagrange_interpolant b (eval_point b intgLoc ip) (inverseNodeMap desc ! n) * V ! n)"
proof -
  note B = basis_of_description [OF assms(1,2)]
  have ip: "ip < length intgLoc div basisDim b" using assms(3) by (simp add: B(3))
  have "eval_basis_weights b intgLoc ! (ip * nodesPerElement desc + n) =
          tensor_lagrange_interpolant b (eval_point b intgLoc ip) (inverseNodeMap desc ! n)"
    if "n < nodesPerElement desc" for n
    using eval_basis_weights_nth [OF ip, of n] that by (simp add: B(2,5))
  then show ?thesis
    unfolding approx_interp_def sum_list_upt_conv by (intro sum.cong) simp_all
qed

lemma approx_deriv_basis:
  assumes "description_invariant desc"
    and "b = LagrangeBasis_new (inverseNodeMap desc) (nodeLocs1D desc)"
    and "ip < length intgLoc div dimension desc" and "d < dimension desc"
  shows "approx_deriv (eval_deriv_weights b intgLoc) V (nodesPerElement desc) (dimension desc) ip d =
          (\<Sum>n<nodesPerElement desc.
              tensor_lagrange_derivative b (eval_point b intgLoc ip) (inverseNodeMap desc ! n) d * V ! n)"
proof -
  note B = basis_of_description [OF assms(1,2)]
  have ip: "ip < length intgLoc div basisDim b" using assms(3) by (simp add: B(3))
  have d: "d < basisDim b" using assms(4) by (simp add: B(3))
  have "eval_deriv_weights b intgLoc ! ((ip * nodesPerElement desc + n) * dimension desc + d) =
          tensor_lagrange_derivative b (eval_point b intgLoc ip) (inverseNodeMap desc ! n) d"
    if "n < nodesPerElement desc" for n
    using eval_deriv_weights_nth [OF ip _ d, of n] that by (simp add: B(2,3,5))
  then show ?thesis
    unfolding approx_deriv_def sum_list_upt_conv by (intro sum.cong) simp_all
qed

section \<open>Exactness of interpolation and differentiation\<close>

lemma eval_point_quad:
  assumes "description_invariant desc" and "dimension desc = 2"
    and "b = LagrangeBasis_new (inverseNodeMap desc) (nodeLocs1D desc)"
    and "ip < length intgLoc div 2"
  shows "eval_point b intgLoc ip ! 0 = intgLoc ! (ip * 2)"
    and "eval_point b intgLoc ip ! Suc 0 = intgLoc ! (ip * 2 + 1)"
  using eval_point_nth [of ip intgLoc b 0] eval_point_nth [of ip intgLoc b 1]
    basis_of_description(3) [OF assms(1,3)] assms(2,4)
  by simp_all

lemma eval_point_hex:
  assumes "description_invariant desc" and "dimension desc = 3"
    and "b = LagrangeBasis_new (inverseNodeMap desc) (nodeLocs1D desc)"
    and "ip < length intgLoc div 3"
  shows "eval_point b intgLoc ip ! 0 = intgLoc ! (ip * 3)"
    and "eval_point b intgLoc ip ! Suc 0 = intgLoc ! (ip * 3 + 1)"
    and "eval_point b intgLoc ip ! 2 = intgLoc ! (ip * 3 + 2)"
  using eval_point_nth [of ip intgLoc b 0] eval_point_nth [of ip intgLoc b 1]
    eval_point_nth [of ip intgLoc b 2]
    basis_of_description(3) [OF assms(1,3)] assms(2,4)
  by simp_all

lemma interpolation_quad:
  assumes inv: "description_invariant desc" and dim: "dimension desc = 2"
    and b: "b = LagrangeBasis_new (inverseNodeMap desc) (nodeLocs1D desc)"
    and cx: "length coeffsX \<le> nodes1D desc" and cy: "length coeffsY \<le> nodes1D desc"
    and ip: "ip < length intgLoc div 2"
  shows "approx_interp (eval_basis_weights b intgLoc) (nodal_poly_quad desc coeffsX coeffsY)
           (nodesPerElement desc) ip
         = poly_val coeffsX (intgLoc ! (ip * 2))
           * poly_val coeffsY (intgLoc ! (ip * 2 + 1))"
proof -
  have bd: "basisDim b = 2" using basis_of_description(3) [OF inv b] dim by simp
  have ip': "ip < length intgLoc div dimension desc" using ip dim by simp
  have d0: "0 < dimension desc" and d1: "1 < dimension desc"
    using dim by simp_all
  have "(\<Sum>n<nodesPerElement desc. tensor_lagrange_interpolant b (eval_point b intgLoc ip) (inverseNodeMap desc ! n) * (nodal_poly_quad desc coeffsX coeffsY) ! n) =
          (\<Sum>i<nodes1D desc. interpolation_weight b (eval_point b intgLoc ip ! 0) i * poly_val coeffsX (nodeLocs1D desc ! i)) *
          (\<Sum>j<nodes1D desc. interpolation_weight b (eval_point b intgLoc ip ! 1) j * poly_val coeffsY (nodeLocs1D desc ! j))"
    by (rule quad_nodal_sum [OF inv dim]) (rule tensor_weights_2(1) [OF bd])
  then show "approx_interp (eval_basis_weights b intgLoc) (nodal_poly_quad desc coeffsX coeffsY)
           (nodesPerElement desc) ip
         = poly_val coeffsX (intgLoc ! (ip * 2))
           * poly_val coeffsY (intgLoc ! (ip * 2 + 1))"
    unfolding approx_interp_basis [OF inv b ip']
    by (simp add: basis_1d [OF inv b] cx cy eval_point_quad [OF inv dim b ip])
qed

lemma derivative_quad:
  assumes inv: "description_invariant desc" and dim: "dimension desc = 2"
    and b: "b = LagrangeBasis_new (inverseNodeMap desc) (nodeLocs1D desc)"
    and cx: "length coeffsX \<le> nodes1D desc" and cy: "length coeffsY \<le> nodes1D desc"
    and ip: "ip < length intgLoc div 2"
  shows "approx_deriv (eval_deriv_weights b intgLoc) (nodal_poly_quad desc coeffsX coeffsY)
           (nodesPerElement desc) 2 ip 0
         = poly_der coeffsX (intgLoc ! (ip * 2))
           * poly_val coeffsY (intgLoc ! (ip * 2 + 1))"
    and "approx_deriv (eval_deriv_weights b intgLoc) (nodal_poly_quad desc coeffsX coeffsY)
           (nodesPerElement desc) 2 ip 1
         = poly_val coeffsX (intgLoc ! (ip * 2))
           * poly_der coeffsY (intgLoc ! (ip * 2 + 1))"
proof -
  have bd: "basisDim b = 2" using basis_of_description(3) [OF inv b] dim by simp
  have ip': "ip < length intgLoc div dimension desc" using ip dim by simp
  have d0: "0 < dimension desc" and d1: "1 < dimension desc"
    using dim by simp_all
  have "(\<Sum>n<nodesPerElement desc. tensor_lagrange_derivative b (eval_point b intgLoc ip) (inverseNodeMap desc ! n) 0 * (nodal_poly_quad desc coeffsX coeffsY) ! n) =
          (\<Sum>i<nodes1D desc. derivative_weight b (eval_point b intgLoc ip ! 0) i * poly_val coeffsX (nodeLocs1D desc ! i)) *
          (\<Sum>j<nodes1D desc. interpolation_weight b (eval_point b intgLoc ip ! 1) j * poly_val coeffsY (nodeLocs1D desc ! j))"
    by (rule quad_nodal_sum [OF inv dim]) (rule tensor_weights_2(2) [OF bd])
  then show "approx_deriv (eval_deriv_weights b intgLoc) (nodal_poly_quad desc coeffsX coeffsY)
           (nodesPerElement desc) 2 ip 0
         = poly_der coeffsX (intgLoc ! (ip * 2))
           * poly_val coeffsY (intgLoc ! (ip * 2 + 1))"
    unfolding approx_deriv_basis [OF inv b ip' d0, unfolded dim]
    by (simp add: basis_1d [OF inv b] cx cy eval_point_quad [OF inv dim b ip])
  have "(\<Sum>n<nodesPerElement desc. tensor_lagrange_derivative b (eval_point b intgLoc ip) (inverseNodeMap desc ! n) 1 * (nodal_poly_quad desc coeffsX coeffsY) ! n) =
          (\<Sum>i<nodes1D desc. interpolation_weight b (eval_point b intgLoc ip ! 0) i * poly_val coeffsX (nodeLocs1D desc ! i)) *
          (\<Sum>j<nodes1D desc. derivative_weight b (eval_point b intgLoc ip ! 1) j * poly_val coeffsY (nodeLocs1D desc ! j))"
    by (rule quad_nodal_sum [OF inv dim]) (rule tensor_weights_2(3) [OF bd])
  then show "approx_deriv (eval_deriv_weights b intgLoc) (nodal_poly_quad desc coeffsX coeffsY)
           (nodesPerElement desc) 2 ip 1
         = poly_val coeffsX (intgLoc ! (ip * 2))
           * poly_der coeffsY (intgLoc ! (ip * 2 + 1))"
    unfolding approx_deriv_basis [OF inv b ip' d1, unfolded dim]
    by (simp add: basis_1d [OF inv b] cx cy eval_point_quad [OF inv dim b ip])
qed

lemma interpolation_hex:
  assumes inv: "description_invariant desc" and dim: "dimension desc = 3"
    and b: "b = LagrangeBasis_new (inverseNodeMap desc) (nodeLocs1D desc)"
    and cx: "length coeffsX \<le> nodes1D desc" and cy: "length coeffsY \<le> nodes1D desc"
    and cz: "length coeffsZ \<le> nodes1D desc"
    and ip: "ip < length intgLoc div 3"
  shows "approx_interp (eval_basis_weights b intgLoc) (nodal_poly_hex desc coeffsX coeffsY coeffsZ)
           (nodesPerElement desc) ip
         = poly_val coeffsX (intgLoc ! (ip * 3))
           * poly_val coeffsY (intgLoc ! (ip * 3 + 1))
           * poly_val coeffsZ (intgLoc ! (ip * 3 + 2))"
proof -
  have bd: "basisDim b = 3" using basis_of_description(3) [OF inv b] dim by simp
  have ip': "ip < length intgLoc div dimension desc" using ip dim by simp
  have d0: "0 < dimension desc" and d1: "1 < dimension desc" and d2: "2 < dimension desc"
    using dim by simp_all
  have "(\<Sum>n<nodesPerElement desc. tensor_lagrange_interpolant b (eval_point b intgLoc ip) (inverseNodeMap desc ! n) * (nodal_poly_hex desc coeffsX coeffsY coeffsZ) ! n) =
          (\<Sum>i<nodes1D desc. interpolation_weight b (eval_point b intgLoc ip ! 0) i * poly_val coeffsX (nodeLocs1D desc ! i)) *
          (\<Sum>j<nodes1D desc. interpolation_weight b (eval_point b intgLoc ip ! 1) j * poly_val coeffsY (nodeLocs1D desc ! j)) *
          (\<Sum>k<nodes1D desc. interpolation_weight b (eval_point b intgLoc ip ! 2) k * poly_val coeffsZ (nodeLocs1D desc ! k))"
    by (rule hex_nodal_sum [OF inv dim]) (rule tensor_weights_3(1) [OF bd])
  then show "approx_interp (eval_basis_weights b intgLoc) (nodal_poly_hex desc coeffsX coeffsY coeffsZ)
           (nodesPerElement desc) ip
         = poly_val coeffsX (intgLoc ! (ip * 3))
           * poly_val coeffsY (intgLoc ! (ip * 3 + 1))
           * poly_val coeffsZ (intgLoc ! (ip * 3 + 2))"
    unfolding approx_interp_basis [OF inv b ip']
    by (simp add: basis_1d [OF inv b] cx cy cz eval_point_hex [OF inv dim b ip])
qed

lemma derivative_hex:
  assumes inv: "description_invariant desc" and dim: "dimension desc = 3"
    and b: "b = LagrangeBasis_new (inverseNodeMap desc) (nodeLocs1D desc)"
    and cx: "length coeffsX \<le> nodes1D desc" and cy: "length coeffsY \<le> nodes1D desc"
    and cz: "length coeffsZ \<le> nodes1D desc"
    and ip: "ip < length intgLoc div 3"
  shows "approx_deriv (eval_deriv_weights b intgLoc) (nodal_poly_hex desc coeffsX coeffsY coeffsZ)
           (nodesPerElement desc) 3 ip 0
         = poly_der coeffsX (intgLoc ! (ip * 3))
           * poly_val coeffsY (intgLoc ! (ip * 3 + 1))
           * poly_val coeffsZ (intgLoc ! (ip * 3 + 2))"
    and "approx_deriv (eval_deriv_weights b intgLoc) (nodal_poly_hex desc coeffsX coeffsY coeffsZ)
           (nodesPerElement desc) 3 ip 1
         = poly_val coeffsX (intgLoc ! (ip * 3))
           * poly_der coeffsY (intgLoc ! (ip * 3 + 1))
           * poly_val coeffsZ (intgLoc ! (ip * 3 + 2))"
    and "approx_deriv (eval_deriv_weights b intgLoc) (nodal_poly_hex desc coeffsX coeffsY coeffsZ)
           (nodesPerElement desc) 3 ip 2
         = poly_val coeffsX (intgLoc ! (ip * 3))
           * poly_val coeffsY (intgLoc ! (ip * 3 + 1))
           * poly_der coeffsZ (intgLoc ! (ip * 3 + 2))"
proof -
  have bd: "basisDim b = 3" using basis_of_description(3) [OF inv b] dim by simp
  have ip': "ip < length intgLoc div dimension desc" using ip dim by simp
  have d0: "0 < dimension desc" and d1: "1 < dimension desc" and d2: "2 < dimension desc"
    using dim by simp_all
  have "(\<Sum>n<nodesPerElement desc. tensor_lagrange_derivative b (eval_point b intgLoc ip) (inverseNodeMap desc ! n) 0 * (nodal_poly_hex desc coeffsX coeffsY coeffsZ) ! n) =
          (\<Sum>i<nodes1D desc. derivative_weight b (eval_point b intgLoc ip ! 0) i * poly_val coeffsX (nodeLocs1D desc ! i)) *
          (\<Sum>j<nodes1D desc. interpolation_weight b (eval_point b intgLoc ip ! 1) j * poly_val coeffsY (nodeLocs1D desc ! j)) *
          (\<Sum>k<nodes1D desc. interpolation_weight b (eval_point b intgLoc ip ! 2) k * poly_val coeffsZ (nodeLocs1D desc ! k))"
    by (rule hex_nodal_sum [OF inv dim]) (rule tensor_weights_3(2) [OF bd])
  then show "approx_deriv (eval_deriv_weights b intgLoc) (nodal_poly_hex desc coeffsX coeffsY coeffsZ)
           (nodesPerElement desc) 3 ip 0
         = poly_der coeffsX (intgLoc ! (ip * 3))
           * poly_val coeffsY (intgLoc ! (ip * 3 + 1))
           * poly_val coeffsZ (intgLoc ! (ip * 3 + 2))"
    unfolding approx_deriv_basis [OF inv b ip' d0, unfolded dim]
    by (simp add: basis_1d [OF inv b] cx cy cz eval_point_hex [OF inv dim b ip])
  have "(\<Sum>n<nodesPerElement desc. tensor_lagrange_derivative b (eval_point b intgLoc ip) (inverseNodeMap desc ! n) 1 * (nodal_poly_hex desc coeffsX coeffsY coeffsZ) ! n) =
          (\<Sum>i<nodes1D desc. interpolation_weight b (eval_point b intgLoc ip ! 0) i * poly_val coeffsX (nodeLocs1D desc ! i)) *
          (\<Sum>j<nodes1D desc. derivative_weight b (eval_point b intgLoc ip ! 1) j * poly_val coeffsY (nodeLocs1D desc ! j)) *
          (\<Sum>k<nodes1D desc. interpolation_weight b (eval_point b intgLoc ip ! 2) k * poly_val coeffsZ (nodeLocs1D desc ! k))"
    by (rule hex_nodal_sum [OF inv dim]) (rule tensor_weights_3(3) [OF bd])
  then show "approx_deriv (eval_deriv_weights b intgLoc) (nodal_poly_hex desc coeffsX coeffsY coeffsZ)
           (nodesPerElement desc) 3 ip 1
         = poly_val coeffsX (intgLoc ! (ip * 3))
           * poly_der coeffsY (intgLoc ! (ip * 3 + 1))
           * poly_val coeffsZ (intgLoc ! (ip * 3 + 2))"
    unfolding approx_deriv_basis [OF inv b ip' d1, unfolded dim]
    by (simp add: basis_1d [OF inv b] cx cy cz eval_point_hex [OF inv dim b ip])
  have "(\<Sum>n<nodesPerElement desc. tensor_lagrange_derivative b (eval_point b intgLoc ip) (inverseNodeMap desc ! n) 2 * (nodal_poly_hex desc coeffsX coeffsY coeffsZ) ! n) =
          (\<Sum>i<nodes1D desc. interpolation_weight b (eval_point b intgLoc ip ! 0) i * poly_val coeffsX (nodeLocs1D desc ! i)) *
          (\<Sum>j<nodes1D desc. interpolation_weight b (eval_point b intgLoc ip ! 1) j * poly_val coeffsY (nodeLocs1D desc ! j)) *
          (\<Sum>k<nodes1D desc. derivative_weight b (eval_point b intgLoc ip ! 2) k * poly_val coeffsZ (nodeLocs1D desc ! k))"
    by (rule hex_nodal_sum [OF inv dim]) (rule tensor_weights_3(4) [OF bd])
  then show "approx_deriv (eval_deriv_weights b intgLoc) (nodal_poly_hex desc coeffsX coeffsY coeffsZ)
           (nodesPerElement desc) 3 ip 2
         = poly_val coeffsX (intgLoc ! (ip * 3))
           * poly_val coeffsY (intgLoc ! (ip * 3 + 1))
           * poly_der coeffsZ (intgLoc ! (ip * 3 + 2))"
    unfolding approx_deriv_basis [OF inv b ip' d2, unfolded dim]
    by (simp add: basis_1d [OF inv b] cx cy cz eval_point_hex [OF inv dim b ip])
qed

section \<open>The basis on tensor-product polynomials\<close>

lemma example_quad_create: "create example_nodeLocations 2 2 = Inr example_quad"
  by (simp add: example_quad_def create_def Let_def)

lemma example_hex_create: "create example_nodeLocations 3 1 = Inr example_hex"
  by (simp add: example_hex_def create_def Let_def)

lemma example_quad_invariant: "description_invariant example_quad"
  by (rule create_invariant [OF example_quad_create]) (simp_all add: example_nodeLocations_def)

lemma example_hex_invariant: "description_invariant example_hex"
  by (rule create_invariant [OF example_hex_create]) (simp_all add: example_nodeLocations_def)

lemma example_dimension: "dimension example_quad = 2" "dimension example_hex = 3"
  "polyOrder example_quad = 2" "polyOrder example_hex = 1"
  by (simp_all add: example_quad_def example_hex_def create_def Let_def)

lemma partition_of_unity_quad:
  assumes inv: "description_invariant desc" and dim: "dimension desc = 2"
    and b: "b = LagrangeBasis_new (inverseNodeMap desc) (nodeLocs1D desc)"
    and ip: "ip < length intgLoc div 2"
  shows "(\<Sum>n<nodesPerElement desc. eval_basis_weights b intgLoc ! (ip * nodesPerElement desc + n)) = 1"
proof -
  have one: "poly_val [1] x = 1" for x by (simp add: poly_val_def)
  have n1: "1 \<le> nodes1D desc" by (simp add: description_invariant_sizes(1) [OF inv])
  have V: "nodal_poly_quad desc [1] [1] ! n = 1" if "n < nodesPerElement desc" for n
    unfolding nodal_poly_quad_def
    using fill_nodal_values_nth [OF inv _ that, of "quad_indices (nodes1D desc)"]
    by (simp add: set_quad_indices dim one)
  have "approx_interp (eval_basis_weights b intgLoc) (nodal_poly_quad desc [1] [1])
          (nodesPerElement desc) ip = 1"
    using interpolation_quad [OF inv dim b _ _ ip, of "[1]" "[1]"] n1 by (simp add: one)
  then show ?thesis
    unfolding approx_interp_def sum_list_upt_conv by (simp add: V)
qed

lemma partition_of_unity_hex:
  assumes inv: "description_invariant desc" and dim: "dimension desc = 3"
    and b: "b = LagrangeBasis_new (inverseNodeMap desc) (nodeLocs1D desc)"
    and ip: "ip < length intgLoc div 3"
  shows "(\<Sum>n<nodesPerElement desc. eval_basis_weights b intgLoc ! (ip * nodesPerElement desc + n)) = 1"
proof -
  have one: "poly_val [1] x = 1" for x by (simp add: poly_val_def)
  have n1: "1 \<le> nodes1D desc" by (simp add: description_invariant_sizes(1) [OF inv])
  have V: "nodal_poly_hex desc [1] [1] [1] ! n = 1" if "n < nodesPerElement desc" for n
    unfolding nodal_poly_hex_def
    using fill_nodal_values_nth [OF inv _ that, of "hex_indices (nodes1D desc)"]
    by (simp add: set_hex_indices dim one)
  have "approx_interp (eval_basis_weights b intgLoc) (nodal_poly_hex desc [1] [1] [1])
          (nodesPerElement desc) ip = 1"
    using interpolation_hex [OF inv dim b _ _ _ ip, of "[1]" "[1]" "[1]"] n1 by (simp add: one)
  then show ?thesis
    unfolding approx_interp_def sum_list_upt_conv by (simp add: V)
qed

text \<open>
  C3. For a quadrilateral and a hexahedral element description that satisfy the
  invariant of the data model (any polynomial order, so in particular the orders 1 to
  5), coefficient vectors of at most \<open>order + 1\<close> entries per axis, and any evaluation
  points (so in particular those with coordinates in \<open>[-1.05, 1.05]\<close>): the weights of
  \<^verbatim>\<open>eval_basis_weights\<close> applied to the nodal samples of the tensor-product polynomial give
  its value at the point, the weights of \<^verbatim>\<open>eval_deriv_weights\<close> give its partial derivative
  in every coordinate direction, and the interpolation weights of every point sum to 1.
  The values are equal in exact arithmetic, hence within \<open>1e-10\<close> of each other.
\<close>

theorem lagrange_basis_exactness:
  assumes "description_invariant quad" and "dimension quad = 2"
    and "basis2 = LagrangeBasis_new (inverseNodeMap quad) (nodeLocs1D quad)"
    and "length coeffsX \<le> polyOrder quad + 1" and "length coeffsY \<le> polyOrder quad + 1"
    and "length intgLoc2 = numIps2 * 2" and "ip2 < numIps2"
    and "description_invariant hex" and "dimension hex = 3"
    and "basis3 = LagrangeBasis_new (inverseNodeMap hex) (nodeLocs1D hex)"
    and "length coeffsU \<le> polyOrder hex + 1" and "length coeffsV \<le> polyOrder hex + 1"
    and "length coeffsW \<le> polyOrder hex + 1"
    and "length intgLoc3 = numIps3 * 3" and "ip3 < numIps3"
  shows
    "approx_interp (eval_basis_weights basis2 intgLoc2) (nodal_poly_quad quad coeffsX coeffsY)
        (nodesPerElement quad) ip2
       = poly_val coeffsX (intgLoc2 ! (ip2 * 2)) * poly_val coeffsY (intgLoc2 ! (ip2 * 2 + 1))
     \<and> approx_deriv (eval_deriv_weights basis2 intgLoc2) (nodal_poly_quad quad coeffsX coeffsY)
        (nodesPerElement quad) 2 ip2 0
       = poly_der coeffsX (intgLoc2 ! (ip2 * 2)) * poly_val coeffsY (intgLoc2 ! (ip2 * 2 + 1))
     \<and> approx_deriv (eval_deriv_weights basis2 intgLoc2) (nodal_poly_quad quad coeffsX coeffsY)
        (nodesPerElement quad) 2 ip2 1
       = poly_val coeffsX (intgLoc2 ! (ip2 * 2)) * poly_der coeffsY (intgLoc2 ! (ip2 * 2 + 1))
     \<and> (\<Sum>n<nodesPerElement quad.
           eval_basis_weights basis2 intgLoc2 ! (ip2 * nodesPerElement quad + n)) = 1
     \<and> approx_interp (eval_basis_weights basis3 intgLoc3)
        (nodal_poly_hex hex coeffsU coeffsV coeffsW) (nodesPerElement hex) ip3
       = poly_val coeffsU (intgLoc3 ! (ip3 * 3)) * poly_val coeffsV (intgLoc3 ! (ip3 * 3 + 1))
         * poly_val coeffsW (intgLoc3 ! (ip3 * 3 + 2))
     \<and> approx_deriv (eval_deriv_weights basis3 intgLoc3)
        (nodal_poly_hex hex coeffsU coeffsV coeffsW) (nodesPerElement hex) 3 ip3 0
       = poly_der coeffsU (intgLoc3 ! (ip3 * 3)) * poly_val coeffsV (intgLoc3 ! (ip3 * 3 + 1))
         * poly_val coeffsW (intgLoc3 ! (ip3 * 3 + 2))
     \<and> approx_deriv (eval_deriv_weights basis3 intgLoc3)
        (nodal_poly_hex hex coeffsU coeffsV coeffsW) (nodesPerElement hex) 3 ip3 1
       = poly_val coeffsU (intgLoc3 ! (ip3 * 3)) * poly_der coeffsV (intgLoc3 ! (ip3 * 3 + 1))
         * poly_val coeffsW (intgLoc3 ! (ip3 * 3 + 2))
     \<and> approx_deriv (eval_deriv_weights basis3 intgLoc3)
        (nodal_poly_hex hex coeffsU coeffsV coeffsW) (nodesPerElement hex) 3 ip3 2
       = poly_val coeffsU (intgLoc3 ! (ip3 * 3)) * poly_val coeffsV (intgLoc3 ! (ip3 * 3 + 1))
         * poly_der coeffsW (intgLoc3 ! (ip3 * 3 + 2))
     \<and> (\<Sum>n<nodesPerElement hex.
           eval_basis_weights basis3 intgLoc3 ! (ip3 * nodesPerElement hex + n)) = 1"
proof -
  have cx: "length coeffsX \<le> nodes1D quad" and cy: "length coeffsY \<le> nodes1D quad"
    using assms(4,5) by (simp_all add: description_invariant_sizes(1) [OF assms(1)])
  have cu: "length coeffsU \<le> nodes1D hex" and cv: "length coeffsV \<le> nodes1D hex"
    and cw: "length coeffsW \<le> nodes1D hex"
    using assms(11,12,13) by (simp_all add: description_invariant_sizes(1) [OF assms(8)])
  have ip2: "ip2 < length intgLoc2 div 2" using assms(6,7) by simp
  have ip3: "ip3 < length intgLoc3 div 3" using assms(14,15) by simp
  note q = interpolation_quad [OF assms(1,2,3) cx cy ip2]
    derivative_quad [OF assms(1,2,3) cx cy ip2]
    partition_of_unity_quad [OF assms(1,2,3) ip2]
  note h = interpolation_hex [OF assms(8,9,10) cu cv cw ip3]
    derivative_hex [OF assms(8,9,10) cu cv cw ip3]
    partition_of_unity_hex [OF assms(8,9,10) ip3]
  show ?thesis
    by (intro conjI q h)
qed

theorem lagrange_basis_exactness_witness:
  "description_invariant example_quad \<and> dimension example_quad = 2
   \<and> length [1, 2, 3 :: real] \<le> polyOrder example_quad + 1
   \<and> length [0, 1 :: real] \<le> polyOrder example_quad + 1
   \<and> length [1 / 2, 1 / 4 :: real] = 1 * 2 \<and> (0::nat) < 1
   \<and> description_invariant example_hex \<and> dimension example_hex = 3
   \<and> length [1, 2 :: real] \<le> polyOrder example_hex + 1
   \<and> length [0, 1 :: real] \<le> polyOrder example_hex + 1
   \<and> length [3, 1 :: real] \<le> polyOrder example_hex + 1
   \<and> length [1 / 2, 1 / 4, - 1 / 3 :: real] = 1 * 3
   \<and> approx_interp
         (eval_basis_weights (LagrangeBasis_new (inverseNodeMap example_quad) (nodeLocs1D example_quad))
            [1 / 2, 1 / 4])
         (nodal_poly_quad example_quad [1, 2, 3] [0, 1]) (nodesPerElement example_quad) 0 = 11 / 16
   \<and> approx_deriv
         (eval_deriv_weights (LagrangeBasis_new (inverseNodeMap example_quad) (nodeLocs1D example_quad))
            [1 / 2, 1 / 4])
         (nodal_poly_quad example_quad [1, 2, 3] [0, 1]) (nodesPerElement example_quad) 2 0 0 = 5 / 4
   \<and> approx_deriv
         (eval_deriv_weights (LagrangeBasis_new (inverseNodeMap example_hex) (nodeLocs1D example_hex))
            [1 / 2, 1 / 4, - 1 / 3])
         (nodal_poly_hex example_hex [1, 2] [0, 1] [3, 1]) (nodesPerElement example_hex) 3 0 2 = 1 / 2"
proof -
  note d = example_dimension
  have h4: "length [1, 2, 3 :: real] \<le> polyOrder example_quad + 1"
    and h5: "length [0, 1 :: real] \<le> polyOrder example_quad + 1"
    and h11: "length [1, 2 :: real] \<le> polyOrder example_hex + 1"
    and h12: "length [0, 1 :: real] \<le> polyOrder example_hex + 1"
    and h13: "length [3, 1 :: real] \<le> polyOrder example_hex + 1"
    by (simp_all add: d)
  have h6: "length [1 / 2, 1 / 4 :: real] = 1 * 2" and h7: "(0::nat) < 1"
    and h14: "length [1 / 2, 1 / 4, - 1 / 3 :: real] = 1 * 3"
    by simp_all
  note t = lagrange_basis_exactness [OF example_quad_invariant d(1) refl h4 h5 h6 h7
      example_hex_invariant d(2) refl h11 h12 h13 h14 h7]
  have pv: "poly_val [1, 2, 3] (1 / 2) * poly_val [0, 1] (1 / 4) = 11 / 16"
    "poly_der [1, 2, 3] (1 / 2) * poly_val [0, 1] (1 / 4) = 5 / 4"
    "poly_val [1, 2] (1 / 2) * poly_val [0, 1] (1 / 4) * poly_der [3, 1] (- 1 / 3) = 1 / 2"
    by (simp_all add: poly_val_def poly_der_def upt_rec power2_eq_square)
  have 1: "approx_interp
         (eval_basis_weights (LagrangeBasis_new (inverseNodeMap example_quad) (nodeLocs1D example_quad))
            [1 / 2, 1 / 4])
         (nodal_poly_quad example_quad [1, 2, 3] [0, 1]) (nodesPerElement example_quad) 0 = 11 / 16"
    using t pv(1) by simp
  have 2: "approx_deriv
         (eval_deriv_weights (LagrangeBasis_new (inverseNodeMap example_quad) (nodeLocs1D example_quad))
            [1 / 2, 1 / 4])
         (nodal_poly_quad example_quad [1, 2, 3] [0, 1]) (nodesPerElement example_quad) 2 0 0 = 5 / 4"
    using t pv(2) by simp
  have 3: "approx_deriv
         (eval_deriv_weights (LagrangeBasis_new (inverseNodeMap example_hex) (nodeLocs1D example_hex))
            [1 / 2, 1 / 4, - 1 / 3])
         (nodal_poly_hex example_hex [1, 2] [0, 1] [3, 1]) (nodesPerElement example_hex) 3 0 2 = 1 / 2"
    using t pv(3) by simp
  show ?thesis
    using example_quad_invariant example_hex_invariant d(1,2) h4 h5 h6 h7 h11 h12 h13 h14 1 2 3
    by blast
qed

end
